theory Spec2Isabelle
  imports Main "HOL-Library.Sublist"
begin

section \<open>The online Aho-Corasick structure of \<^verbatim>\<open>src/search/AhoCorasick.js\<close>\<close>

text \<open>
  The class keeps a dictionary \<^verbatim>\<open>_dict\<close>, the soft-deleted words \<^verbatim>\<open>_ghosts\<close>, a counter
  \<^verbatim>\<open>_next\<close> and a table \<^verbatim>\<open>_nodes\<close> from node numbers to trie nodes. Its methods mutate
  the table in place, call each other recursively and can throw, so the embedding threads
  the state explicitly and returns, for every call, either a thrown error or a value,
  together with the state the object is left in. A call that would loop forever has the
  result \<open>None\<close>.

  The methods \<^verbatim>\<open>_transition\<close>, \<^verbatim>\<open>_getSuffix\<close> and \<^verbatim>\<open>_getWord\<close> recurse once for each level of
  the trie, and the engine's call stack is finite: a call that finds no room for its frame
  throws \<^verbatim>\<open>RangeError\<close>. The methods that \<^verbatim>\<open>query\<close> reaches therefore take the number of
  frames that are free when they are called: with none free they throw, otherwise they
  run their body and call with one frame less (JavaScript engines keep the frame of a
  call in \<^verbatim>\<open>return\<close> position, so \<^verbatim>\<open>return this._transition(...)\<close> nests too). \<^verbatim>\<open>add\<close> and
  \<^verbatim>\<open>delete\<close> are loops that nest one call at most (\<^verbatim>\<open>_clearSuffixes\<close>, which finds
  \<^verbatim>\<open>suffixOf\<close> empty in every reachable state), and are taken to have the room for it. Every frame counts for one,
  whatever its size, and the calls of built-in methods (\<^verbatim>\<open>charAt\<close>, \<^verbatim>\<open>Set.add\<close>) are not
  counted.

  Strings are lists of characters, one character for each code unit of the JavaScript
  string (nothing below depends on the alphabet); a JavaScript one-character string (the
  result of \<^verbatim>\<open>charAt\<close>) is a one-element list, and the root's \<^verbatim>\<open>char: ''\<close> is the empty list.
  Node numbers are integers (\<^verbatim>\<open>EMPTY\<close> is \<open>-1\<close>); the counter is taken as an unbounded
  integer, since the exact range of a JavaScript number (up to \<open>2^53\<close>) is out of reach of
  any table that fits in memory. The object \<^verbatim>\<open>children\<close> is a map from one-character strings
  to node numbers; the object \<^verbatim>\<open>suffixOf\<close>, which the class declares and reads but never
  fills, is a list of key-value pairs. The source's variable \<^verbatim>\<open>curr\<close> is written \<open>cur\<close>, and
  its fields \<^verbatim>\<open>end\<close>, \<^verbatim>\<open>suffix\<close> and \<^verbatim>\<open>_next\<close> are \<open>end_flag\<close>, \<open>suffix_link\<close> and \<open>next_id\<close>.
\<close>

subsection \<open>Data\<close>

record node =
  char :: string
  children :: "string \<rightharpoonup> int"
  end_flag :: bool
  parent :: int
  suffixOf :: "(int \<times> bool) list"
  suffix_link :: "int option"
  word :: "string option"

record state =
  dict :: "string set"
  ghosts :: "string set"
  next_id :: int
  nodes :: "int \<rightharpoonup> node"

definition ROOT :: int where
  "ROOT = 0"

definition EMPTY :: int where
  "EMPTY = - 1"

text \<open>
  The four ways a method can throw: the assertion of \<^verbatim>\<open>add\<close>, the assertion of
  \<^verbatim>\<open>delete\<close>, the \<^verbatim>\<open>TypeError\<close> of reading a field of \<^verbatim>\<open>n[k]\<close> when the table has no entry
  \<^verbatim>\<open>k\<close>, and the \<^verbatim>\<open>RangeError\<close> of a call that exceeds the call stack.
\<close>

datatype error = EmptyWord | MissingChild | TypeError | RangeError

type_synonym 'a outcome = "(error + 'a) \<times> state"
type_synonym 'a res = "'a outcome option"

definition ret :: "'a \<Rightarrow> state \<Rightarrow> 'a res" where
  "ret v s = Some (Inr v, s)"

definition raise :: "error \<Rightarrow> state \<Rightarrow> 'a res" where
  "raise e s = Some (Inl e, s)"

definition bnd :: "'a res \<Rightarrow> ('a \<Rightarrow> state \<Rightarrow> 'b res) \<Rightarrow> 'b res" where
  "bnd m f = (case m of
                None \<Rightarrow> None
              | Some (Inl e, s) \<Rightarrow> Some (Inl e, s)
              | Some (Inr v, s) \<Rightarrow> f v s)"

lemma bnd_mono [partial_function_mono]:
  fixes B :: "('c \<Rightarrow> 'd option) \<Rightarrow> 'a res"
  assumes mf: "mono_option B" and mg: "\<And>y s. mono_option (\<lambda>f. C y s f)"
  shows "mono_option (\<lambda>f. bnd (B f) (\<lambda>y s. C y s f))"
proof (rule monotoneI)
  fix f g :: "'c \<Rightarrow> 'd option"
  assume le: "option.le_fun f g"
  have B: "B f = None \<or> B f = B g"
    using mf le unfolding monotone_def flat_ord_def by blast
  have C: "\<And>y s. C y s f = None \<or> C y s f = C y s g"
    using mg le unfolding monotone_def flat_ord_def by blast
  show "option_ord (bnd (B f) (\<lambda>y s. C y s f)) (bnd (B g) (\<lambda>y s. C y s g))"
  proof (cases "B f")
    case None
    then show ?thesis by (simp add: bnd_def flat_ord_def)
  next
    case (Some a)
    with B have "B g = Some a" by simp
    with Some C show ?thesis
      by (auto simp: bnd_def flat_ord_def split: prod.splits sum.splits)
  qed
qed

subsection \<open>Reading and writing the node table\<close>

text \<open>\<^verbatim>\<open>n[k]\<close> followed by a field access: a \<^verbatim>\<open>TypeError\<close> when the entry is missing.\<close>

definition getNode :: "int \<Rightarrow> state \<Rightarrow> node res" where
  "getNode k s = (case nodes s k of None \<Rightarrow> raise TypeError s | Some nd \<Rightarrow> ret nd s)"

text \<open>\<^verbatim>\<open>n[k] = nd\<close>.\<close>

definition setNode :: "int \<Rightarrow> node \<Rightarrow> state \<Rightarrow> unit res" where
  "setNode k nd s = ret () (s\<lparr>nodes := (nodes s)(k \<mapsto> nd)\<rparr>)"

text \<open>\<^verbatim>\<open>n[k].suffix = v\<close>, \<^verbatim>\<open>n[k].word = w\<close>, \<^verbatim>\<open>n[k].end = b\<close>, \<^verbatim>\<open>n[k].children[ch] = c\<close>.\<close>

definition setSuffix :: "int \<Rightarrow> int option \<Rightarrow> state \<Rightarrow> unit res" where
  "setSuffix k v s = bnd (getNode k s) (\<lambda>nd. setNode k (nd\<lparr>suffix_link := v\<rparr>))"

definition setWord :: "int \<Rightarrow> string \<Rightarrow> state \<Rightarrow> unit res" where
  "setWord k w s = bnd (getNode k s) (\<lambda>nd. setNode k (nd\<lparr>word := Some w\<rparr>))"

definition setEnd :: "int \<Rightarrow> bool \<Rightarrow> state \<Rightarrow> unit res" where
  "setEnd k b s = bnd (getNode k s) (\<lambda>nd. setNode k (nd\<lparr>end_flag := b\<rparr>))"

definition setChild :: "int \<Rightarrow> string \<Rightarrow> int \<Rightarrow> state \<Rightarrow> unit res" where
  "setChild k ch c s =
     bnd (getNode k s) (\<lambda>nd. setNode k (nd\<lparr>children := (children nd)(ch \<mapsto> c)\<rparr>))"

subsection \<open>The constructor\<close>

definition constructor :: state where
  "constructor =
     \<lparr>dict = {}, ghosts = {}, next_id = ROOT + 1,
      nodes = Map.empty(ROOT \<mapsto>
        \<lparr>char = [], children = Map.empty, end_flag = False, parent = EMPTY,
         suffixOf = [], suffix_link = Some ROOT, word = Some []\<rparr>)\<rparr>"

subsection \<open>\<^verbatim>\<open>_transition\<close> and \<^verbatim>\<open>_getSuffix\<close>\<close>

text \<open>
  The two methods call each other, so they are one recursive function on the kind of call.
  Its first argument is the number of free frames. \<^verbatim>\<open>_getSuffix\<close> reads \<^verbatim>\<open>n[node].char\<close> after
  the recursive call has returned and writes the memo into the table as it is then.
\<close>

datatype call = Transition int string | GetSuffix int

fun resolve :: "nat \<Rightarrow> call \<Rightarrow> state \<Rightarrow> int res" where
  "resolve 0 c s = raise RangeError s"
| "resolve (Suc d) c s = (case c of
     Transition node ch \<Rightarrow>
       bnd (getNode node s) (\<lambda>nd s.
         case children nd ch of
           Some k \<Rightarrow> ret k s
         | None \<Rightarrow>
             if node = ROOT then ret ROOT s
             else bnd (resolve d (GetSuffix node) s) (\<lambda>sfx s. resolve d (Transition sfx ch) s))
   | GetSuffix node \<Rightarrow>
       bnd (getNode node s) (\<lambda>nd s.
         case suffix_link nd of
           Some sfx \<Rightarrow> ret sfx s
         | None \<Rightarrow>
             bnd (if parent nd = ROOT then ret ROOT s
                  else bnd (resolve d (GetSuffix (parent nd)) s) (\<lambda>ps s.
                       bnd (getNode node s) (\<lambda>nd' s. resolve d (Transition ps (char nd')) s)))
               (\<lambda>sfx s. bnd (setSuffix node (Some sfx) s) (\<lambda>_ s. ret sfx s))))"

definition transition :: "nat \<Rightarrow> int \<Rightarrow> string \<Rightarrow> state \<Rightarrow> int res" where
  "transition d node ch s = resolve d (Transition node ch) s"

definition getSuffix :: "nat \<Rightarrow> int \<Rightarrow> state \<Rightarrow> int res" where
  "getSuffix d node s = resolve d (GetSuffix node) s"

subsection \<open>\<^verbatim>\<open>_getWord\<close> and \<^verbatim>\<open>_getWords\<close>\<close>

fun getWord :: "nat \<Rightarrow> int \<Rightarrow> state \<Rightarrow> string res" where
  "getWord 0 node s = raise RangeError s"
| "getWord (Suc d) node s =
     bnd (getNode node s) (\<lambda>nd s.
       case word nd of
         Some w \<Rightarrow> ret w s
       | None \<Rightarrow>
           bnd (getWord d (parent nd) s) (\<lambda>pw s.
           bnd (getNode node s) (\<lambda>nd' s.
           bnd (setWord node (pw @ char nd') s) (\<lambda>_ s. ret (pw @ char nd') s))))"

text \<open>
  The \<^verbatim>\<open>while (curr !== ROOT)\<close> loop of \<^verbatim>\<open>_getWords\<close>: it runs in the frame of \<^verbatim>\<open>_getWords\<close>,
  with \<open>d\<close> frames free for the calls it makes.
\<close>

partial_function (option) getWords_loop :: "nat \<Rightarrow> int \<Rightarrow> string list \<Rightarrow> state \<Rightarrow> string list res" where
  "getWords_loop d cur result s =
     (if cur \<noteq> ROOT then
        bnd (getSuffix d cur s) (\<lambda>cur s.
        bnd (getNode cur s) (\<lambda>nd s.
          if end_flag nd
          then bnd (getWord d cur s) (\<lambda>w s. getWords_loop d cur (result @ [w]) s)
          else getWords_loop d cur result s))
      else ret result s)"

fun getWords :: "nat \<Rightarrow> int \<Rightarrow> state \<Rightarrow> string list res" where
  "getWords 0 node s = raise RangeError s"
| "getWords (Suc d) node s =
     bnd (getNode node s) (\<lambda>nd s.
     bnd (if end_flag nd then bnd (getWord d node s) (\<lambda>w s. ret [w] s) else ret [] s)
       (\<lambda>result s. getWords_loop d node result s))"

subsection \<open>\<^verbatim>\<open>query\<close>\<close>

text \<open>
  The loop over the haystack, on the characters still to read, with \<open>d\<close> frames free
  below the frame of \<^verbatim>\<open>query\<close>. The inner loop adds every element of \<^verbatim>\<open>words\<close> to the
  result set.
\<close>

fun query_loop :: "nat \<Rightarrow> string \<Rightarrow> int \<Rightarrow> string set \<Rightarrow> state \<Rightarrow> string set res" where
  "query_loop d [] cur results s = ret results s"
| "query_loop d (c # cs) cur results s =
     bnd (transition d cur [c] s) (\<lambda>cur s.
     bnd (getNode cur s) (\<lambda>nd s.
       if end_flag nd
       then bnd (getWords d cur s) (\<lambda>words s. query_loop d cs cur (fold insert words results) s)
       else query_loop d cs cur results s))"

text \<open>\<^verbatim>\<open>query\<close>, called with \<open>stack\<close> frames free below its own.\<close>

definition query :: "nat \<Rightarrow> string \<Rightarrow> state \<Rightarrow> string set res" where
  "query stack haystack s = query_loop stack haystack ROOT {} s"

subsection \<open>\<^verbatim>\<open>_clearSuffixes\<close>\<close>

text \<open>
  \<^verbatim>\<open>Object.keys\<close> of an object with numeric keys lists them in ascending order.
\<close>

definition Object_keys :: "(int \<times> bool) list \<Rightarrow> int list" where
  "Object_keys kvs = sort (remdups (map fst kvs))"

text \<open>
  The loop over \<^verbatim>\<open>toClear\<close>, with the recursive call in its body. The keys are strings in
  JavaScript: \<^verbatim>\<open>clear === node\<close> is false whenever \<^verbatim>\<open>node\<close> is the number that \<^verbatim>\<open>add\<close> passes,
  and compares the two keys in the recursive calls, which pass a key; \<open>isKey\<close> tells the
  two apart.
\<close>

partial_function (option) clearSuffixes_loop :: "bool \<Rightarrow> int \<Rightarrow> int list \<Rightarrow> state \<Rightarrow> unit res" where
  "clearSuffixes_loop isKey node toClear s =
     (case toClear of
        [] \<Rightarrow> ret () s
      | clear # rest \<Rightarrow>
          if isKey \<and> clear = node then clearSuffixes_loop isKey node rest s
          else
            bnd (getNode node s) (\<lambda>nd s.
            bnd (setNode node (nd\<lparr>suffixOf := filter (\<lambda>kv. fst kv \<noteq> clear) (suffixOf nd)\<rparr>) s) (\<lambda>_ s.
            bnd (setSuffix clear None s) (\<lambda>_ s.
            bnd (getNode clear s) (\<lambda>cn s.
            bnd (clearSuffixes_loop True clear (Object_keys (suffixOf cn)) s) (\<lambda>_ s.
            clearSuffixes_loop isKey node rest s))))))"

definition clearSuffixes :: "int \<Rightarrow> state \<Rightarrow> unit res" where
  "clearSuffixes node s =
     bnd (getNode node s) (\<lambda>nd s. clearSuffixes_loop False node (Object_keys (suffixOf nd)) s)"

subsection \<open>\<^verbatim>\<open>add\<close>\<close>

text \<open>
  The \<^verbatim>\<open>else\<close> branch of the loop body: a new node under \<open>cur\<close>, numbered \<^verbatim>\<open>_next + 1\<close>.
  \<open>isLast\<close> is \<^verbatim>\<open>i === word.length - 1\<close>.
\<close>

definition add_new :: "string \<Rightarrow> bool \<Rightarrow> int \<Rightarrow> state \<Rightarrow> int res" where
  "add_new ch isLast cur s =
     (let newNode = \<lparr>char = ch, children = Map.empty, end_flag = isLast, parent = cur,
                     suffixOf = [], suffix_link = None, word = None\<rparr>
      in bnd (clearSuffixes cur s) (\<lambda>_ s.
         let next = next_id s + 1
         in bnd (setNode next newNode s) (\<lambda>_ s.
            bnd (setChild cur ch next s) (\<lambda>_ s.
            ret next (s\<lparr>next_id := next\<rparr>)))))"

text \<open>
  The loop body: the value returned is the new \<open>cur\<close>. The test \<^verbatim>\<open>if (n[curr].children[char])\<close>
  is JavaScript truthiness: a missing entry and the number \<open>0\<close> both take the \<^verbatim>\<open>else\<close> branch.
\<close>

definition add_step :: "string \<Rightarrow> bool \<Rightarrow> int \<Rightarrow> state \<Rightarrow> int res" where
  "add_step ch isLast cur s =
     bnd (getNode cur s) (\<lambda>nd s.
       case children nd ch of
         None \<Rightarrow> add_new ch isLast cur s
       | Some k \<Rightarrow>
           if k \<noteq> 0
           then bnd (if isLast then setEnd k True s else ret () s) (\<lambda>_ s. ret k s)
           else add_new ch isLast cur s)"

text \<open>The loop over the word, on the characters still to add: the final one has no rest.\<close>

fun add_loop :: "string \<Rightarrow> int \<Rightarrow> state \<Rightarrow> unit res" where
  "add_loop [] cur s = ret () s"
| "add_loop (c # cs) cur s =
     bnd (add_step [c] (cs = []) cur s) (\<lambda>cur s. add_loop cs cur s)"

definition add :: "string \<Rightarrow> state \<Rightarrow> unit res" where
  "add w s =
     (if w = [] then raise EmptyWord s
      else if w \<in> dict s then ret () s
      else add_loop w ROOT (s\<lparr>dict := insert w (dict s), ghosts := ghosts s - {w}\<rparr>))"

subsection \<open>\<^verbatim>\<open>delete\<close>\<close>

text \<open>
  The loop that walks the word's path. Its assertion fails on a falsy \<^verbatim>\<open>children[char]\<close>:
  a missing entry or the number \<open>0\<close>.
\<close>

fun delete_loop :: "string \<Rightarrow> int \<Rightarrow> state \<Rightarrow> int res" where
  "delete_loop [] cur s = ret cur s"
| "delete_loop (c # cs) cur s =
     bnd (getNode cur s) (\<lambda>nd s.
       case children nd [c] of
         None \<Rightarrow> raise MissingChild s
       | Some k \<Rightarrow> if k \<noteq> 0 then delete_loop cs k s else raise MissingChild s)"

definition delete :: "string \<Rightarrow> state \<Rightarrow> unit res" where
  "delete w s =
     (if w \<notin> dict s then ret () s
      else bnd (delete_loop w ROOT (s\<lparr>dict := dict s - {w}, ghosts := insert w (ghosts s)\<rparr>))
             (\<lambda>cur s. setEnd cur False s))"

subsection \<open>Sequences of calls\<close>

text \<open>
  A caller's use of the object: a list of public calls, performed in order on the same
  object until one of them throws. A call of \<^verbatim>\<open>query\<close> comes with the number of frames free
  below it, which depends on where the caller stands.
\<close>

datatype op = Add string | Delete string | Query nat string

fun perform :: "op \<Rightarrow> state \<Rightarrow> unit res" where
  "perform (Add w) s = add w s"
| "perform (Delete w) s = delete w s"
| "perform (Query stack h) s = bnd (query stack h s) (\<lambda>_ s. ret () s)"

fun perform_all :: "op list \<Rightarrow> state \<Rightarrow> unit res" where
  "perform_all [] s = ret () s"
| "perform_all (x # xs) s = bnd (perform x s) (\<lambda>_ s. perform_all xs s)"

text \<open>What a caller sees of a query: the set returned or the error thrown.\<close>

definition query_result :: "nat \<Rightarrow> string \<Rightarrow> state \<Rightarrow> (error + string set) option" where
  "query_result stack h s = map_option fst (query stack h s)"

text \<open>
  The states an object can be in: the constructor's, and the one any public call leaves
  behind, whether it returned or threw.
\<close>

inductive reachable :: "state \<Rightarrow> bool" where
  reachable_constructor: "reachable constructor"
| reachable_perform: "reachable s \<Longrightarrow> perform x s = Some (r, s') \<Longrightarrow> reachable s'"

subsection \<open>Paths in the trie\<close>

text \<open>
  The node at the end of the path that spells a string from node \<open>k\<close>, and the node of
  the longest proper suffix of a string that is a path from the root: what the glossary
  calls the failure link of the node of that string.
\<close>

fun walk :: "state \<Rightarrow> int \<Rightarrow> string \<Rightarrow> int option" where
  "walk s k [] = (case nodes s k of None \<Rightarrow> None | Some nd \<Rightarrow> Some k)"
| "walk s k (c # cs) =
     (case nodes s k of
        None \<Rightarrow> None
      | Some nd \<Rightarrow> (case children nd [c] of None \<Rightarrow> None | Some k' \<Rightarrow> walk s k' cs))"

fun longest_suffix_node :: "state \<Rightarrow> string \<Rightarrow> int option" where
  "longest_suffix_node s [] = None"
| "longest_suffix_node s (c # cs) =
     (case walk s ROOT cs of Some k \<Rightarrow> Some k | None \<Rightarrow> longest_suffix_node s cs)"

section \<open>Specification\<close>

subsection \<open>What a call may change\<close>

text \<open>
  Two states have the same words when their dictionary and their set of soft-deleted
  words agree.
\<close>

definition same_words :: "state \<Rightarrow> state \<Rightarrow> bool" where
  "same_words s s' \<longleftrightarrow> dict s' = dict s \<and> ghosts s' = ghosts s"

text \<open>
  \<open>forget s\<close> is the state \<open>s\<close> with the two lazily computed fields of every node erased.
  Two states with the same \<open>forget\<close> agree on the dictionary, the soft-deleted words, the
  counter, the set of nodes, and on the fields \<^verbatim>\<open>char\<close>, \<^verbatim>\<open>children\<close>, \<^verbatim>\<open>end\<close>, \<^verbatim>\<open>parent\<close> and
  \<^verbatim>\<open>suffixOf\<close> of every node: they differ in the memoized \<^verbatim>\<open>suffix\<close> and \<^verbatim>\<open>word\<close> at most.
\<close>

definition forget_node :: "node \<Rightarrow> node" where
  "forget_node nd = nd\<lparr>suffix_link := None, word := None\<rparr>"

definition forget :: "state \<Rightarrow> state" where
  "forget s = s\<lparr>nodes := (\<lambda>k. map_option forget_node (nodes s k))\<rparr>"

subsection \<open>The invariant of the node table\<close>

text \<open>
  The invariant is stated with a labelling \<open>wd\<close> of the nodes by the string that their
  path from the root spells. The root is labelled with the empty string and keeps its
  memoized link and word; every other node hangs under its \<^verbatim>\<open>parent\<close> by the edge of its
  \<^verbatim>\<open>char\<close>; every edge leads to a node other than the root that names the source as its
  parent; \<^verbatim>\<open>suffixOf\<close> is empty and no node is numbered above \<^verbatim>\<open>_next\<close>; a memoized word is
  the label; a memoized link points to a node whose label is a proper suffix of the
  node's own label (the longest one or not).
\<close>

definition root_ok :: "(int \<Rightarrow> string) \<Rightarrow> state \<Rightarrow> bool" where
  "root_ok wd s \<longleftrightarrow>
     wd ROOT = [] \<and> (\<exists>r. nodes s ROOT = Some r \<and> suffix_link r = Some ROOT \<and> word r = Some [])"

definition parents_ok :: "(int \<Rightarrow> string) \<Rightarrow> state \<Rightarrow> bool" where
  "parents_ok wd s \<longleftrightarrow>
     (\<forall>k nd. nodes s k = Some nd \<longrightarrow> k \<noteq> ROOT \<longrightarrow>
        (\<exists>c pn. char nd = [c] \<and> nodes s (parent nd) = Some pn \<and> children pn [c] = Some k
                \<and> wd k = wd (parent nd) @ [c]))"

definition children_ok :: "state \<Rightarrow> bool" where
  "children_ok s \<longleftrightarrow>
     (\<forall>k nd ch k'. nodes s k = Some nd \<longrightarrow> children nd ch = Some k' \<longrightarrow>
        k' \<noteq> ROOT \<and> (\<exists>kn. nodes s k' = Some kn \<and> parent kn = k \<and> char kn = ch))"

definition fresh_ok :: "state \<Rightarrow> bool" where
  "fresh_ok s \<longleftrightarrow> (\<forall>k nd. nodes s k = Some nd \<longrightarrow> suffixOf nd = [] \<and> k \<le> next_id s)"

definition words_ok :: "(int \<Rightarrow> string) \<Rightarrow> state \<Rightarrow> bool" where
  "words_ok wd s \<longleftrightarrow> (\<forall>k nd w. nodes s k = Some nd \<longrightarrow> word nd = Some w \<longrightarrow> w = wd k)"

definition links_ok :: "(int \<Rightarrow> string) \<Rightarrow> state \<Rightarrow> bool" where
  "links_ok wd s \<longleftrightarrow>
     (\<forall>k nd y. nodes s k = Some nd \<longrightarrow> suffix_link nd = Some y \<longrightarrow> k \<noteq> ROOT \<longrightarrow>
        nodes s y \<noteq> None \<and> strict_suffix (wd y) (wd k))"

definition trie_inv :: "(int \<Rightarrow> string) \<Rightarrow> state \<Rightarrow> bool" where
  "trie_inv wd s \<longleftrightarrow>
     root_ok wd s \<and> parents_ok wd s \<and> children_ok s \<and> fresh_ok s \<and> words_ok wd s \<and> links_ok wd s"

text \<open>
  The terminal flags against a set \<open>D\<close> of words: a node is terminal exactly when its label
  is in \<open>D\<close>, and every word of \<open>D\<close> is non-empty and the label of a node.
\<close>

definition dict_inv :: "(int \<Rightarrow> string) \<Rightarrow> string set \<Rightarrow> state \<Rightarrow> bool" where
  "dict_inv wd D s \<longleftrightarrow>
     (\<forall>k nd. nodes s k = Some nd \<longrightarrow> (end_flag nd \<longleftrightarrow> wd k \<in> D))
     \<and> (\<forall>w\<in>D. w \<noteq> [] \<and> (\<exists>k nd. nodes s k = Some nd \<and> wd k = w))"

text \<open>
  The nodes against a set \<open>W\<close> of words: the label of every node but the root is a prefix
  of a word of \<open>W\<close>. With \<open>W\<close> the words that were ever added, active or soft-deleted, no
  node lies deeper than the longest of them.
\<close>

definition cover_ok :: "(int \<Rightarrow> string) \<Rightarrow> string set \<Rightarrow> state \<Rightarrow> bool" where
  "cover_ok wd W s \<longleftrightarrow> (\<forall>k. nodes s k \<noteq> None \<longrightarrow> k = ROOT \<or> (\<exists>w\<in>W. prefix (wd k) w))"

definition state_inv :: "state \<Rightarrow> bool" where
  "state_inv s \<longleftrightarrow>
     (\<exists>wd. trie_inv wd s \<and> dict_inv wd (dict s) s \<and> cover_ok wd (dict s \<union> ghosts s) s)
     \<and> dict s \<inter> ghosts s = {}"

text \<open>No node but the root has its word memoized: the state of a trie that was never queried.\<close>

definition unmemo :: "state \<Rightarrow> bool" where
  "unmemo s \<longleftrightarrow> (\<forall>k nd. nodes s k = Some nd \<longrightarrow> k \<noteq> ROOT \<longrightarrow> word nd = None)"

subsection \<open>The value of a call, without the memoization\<close>

text \<open>
  \<open>resolves s c v\<close>: in the state \<open>s\<close>, the call \<open>c\<close> of \<^verbatim>\<open>_transition\<close> or \<^verbatim>\<open>_getSuffix\<close>
  returns \<open>v\<close>. The rules are the branches of the two methods, read in the one state \<open>s\<close>:
  what the calls write on the way is left out.
\<close>

inductive resolves :: "state \<Rightarrow> call \<Rightarrow> int \<Rightarrow> bool" for s :: state where
  child: "nodes s n = Some nd \<Longrightarrow> children nd ch = Some k \<Longrightarrow> resolves s (Transition n ch) k"
| root: "nodes s ROOT = Some nd \<Longrightarrow> children nd ch = None \<Longrightarrow> resolves s (Transition ROOT ch) ROOT"
| fail: "nodes s n = Some nd \<Longrightarrow> children nd ch = None \<Longrightarrow> n \<noteq> ROOT \<Longrightarrow>
         resolves s (GetSuffix n) f \<Longrightarrow> resolves s (Transition f ch) v \<Longrightarrow>
         resolves s (Transition n ch) v"
| memo: "nodes s n = Some nd \<Longrightarrow> suffix_link nd = Some v \<Longrightarrow> resolves s (GetSuffix n) v"
| top: "nodes s n = Some nd \<Longrightarrow> suffix_link nd = None \<Longrightarrow> parent nd = ROOT \<Longrightarrow>
        resolves s (GetSuffix n) ROOT"
| deep: "nodes s n = Some nd \<Longrightarrow> suffix_link nd = None \<Longrightarrow> parent nd \<noteq> ROOT \<Longrightarrow>
         resolves s (GetSuffix (parent nd)) ps \<Longrightarrow> resolves s (Transition ps (char nd)) v \<Longrightarrow>
         resolves s (GetSuffix n) v"

inductive_cases resolves_TransitionE: "resolves s (Transition n ch) v"
inductive_cases resolves_GetSuffixE: "resolves s (GetSuffix n) v"

code_pred resolves .

text \<open>
  The node a call starts from, the measure that decreases along the recursion, and the
  number of frames that are enough for the call whatever is memoized: one for each letter
  of the label of the node, and one more for \<^verbatim>\<open>_transition\<close>.
\<close>

fun call_node :: "call \<Rightarrow> int" where
  "call_node (Transition n ch) = n"
| "call_node (GetSuffix n) = n"

fun call_size :: "(int \<Rightarrow> string) \<Rightarrow> call \<Rightarrow> nat" where
  "call_size wd (Transition n ch) = 2 * length (wd n) + 1"
| "call_size wd (GetSuffix n) = 2 * length (wd n)"

fun frames :: "(int \<Rightarrow> string) \<Rightarrow> call \<Rightarrow> nat" where
  "frames wd (Transition n ch) = length (wd n) + 1"
| "frames wd (GetSuffix n) = max 1 (length (wd n))"

text \<open>
  \<open>memo_ext s t\<close>: the state \<open>t\<close> is \<open>s\<close> with more memoized: the same but for the memo
  fields, every link and every word memoized in \<open>s\<close> still memoized in \<open>t\<close>, and every
  value of \<open>s\<close> still the value in \<open>t\<close>. \<open>sim s t\<close> keeps the first and the last condition.
\<close>

definition memo_ext :: "state \<Rightarrow> state \<Rightarrow> bool" where
  "memo_ext s t \<longleftrightarrow>
     forget t = forget s
     \<and> (\<forall>k nd y. nodes s k = Some nd \<longrightarrow> suffix_link nd = Some y \<longrightarrow>
          (\<exists>nd'. nodes t k = Some nd' \<and> suffix_link nd' = Some y))
     \<and> (\<forall>c v. resolves s c v \<longrightarrow> resolves t c v)
     \<and> (\<forall>k nd w. nodes s k = Some nd \<longrightarrow> word nd = Some w \<longrightarrow>
          (\<exists>nd'. nodes t k = Some nd' \<and> word nd' = Some w))"

definition sim :: "state \<Rightarrow> state \<Rightarrow> bool" where
  "sim s t \<longleftrightarrow> forget t = forget s \<and> (\<forall>c v. resolves s c v \<longrightarrow> resolves t c v)"

text \<open>
  \<open>good wd s m v ok\<close>: in every state that keeps the values of \<open>s\<close> the computation \<open>m\<close>
  ends; it returns \<open>v\<close> or throws \<^verbatim>\<open>RangeError\<close>, and leaves a state with more memoized;
  when \<open>ok\<close> holds it returns \<open>v\<close>.
\<close>

definition good :: "(int \<Rightarrow> string) \<Rightarrow> state \<Rightarrow> (state \<Rightarrow> 'a res) \<Rightarrow> 'a \<Rightarrow> bool \<Rightarrow> bool" where
  "good wd s m v ok \<longleftrightarrow>
     (\<forall>t. trie_inv wd t \<longrightarrow> sim s t \<longrightarrow>
        (\<exists>r t'. m t = Some (r, t') \<and> trie_inv wd t' \<and> memo_ext t t'
           \<and> (r = Inr v \<or> r = Inl RangeError) \<and> (ok \<longrightarrow> r = Inr v)))"

text \<open>
  \<open>replays wd m m'\<close>: whatever a run of \<open>m\<close> does, it leaves a state with more memoized;
  and when it has returned \<open>v\<close>, the computation \<open>m'\<close> returns \<open>v\<close> in every state that has
  at least as much memoized as the run left, and changes nothing. It is used with \<open>m'\<close>
  the same call as \<open>m\<close>, on a stack that is not shorter.
\<close>

definition replays :: "(int \<Rightarrow> string) \<Rightarrow> (state \<Rightarrow> 'a res) \<Rightarrow> (state \<Rightarrow> 'a res) \<Rightarrow> bool" where
  "replays wd m m' \<longleftrightarrow>
     (\<forall>s r s1. trie_inv wd s \<longrightarrow> m s = Some (r, s1) \<longrightarrow>
        trie_inv wd s1 \<and> memo_ext s s1
        \<and> (\<forall>v t. r = Inr v \<longrightarrow> memo_ext s1 t \<longrightarrow> m' t = Some (Inr v, t)))"

section \<open>Evaluating the methods\<close>

text \<open>
  The equations of the methods that take a stack are used where a proof asks for them.
\<close>

lemmas resolve_simps = resolve.simps
lemmas getWord_simps = getWord.simps
lemmas getWords_simps = getWords.simps

declare resolve.simps [simp del]
declare getWord.simps [simp del]
declare getWords.simps [simp del]

text \<open>The equations of the two loops are code equations, so that every method can be run.\<close>

declare getWords_loop.simps [code]
declare clearSuffixes_loop.simps [code]

lemmas unfold_calls =
  bnd_def ret_def raise_def getNode_def setNode_def setSuffix_def setWord_def setEnd_def
  setChild_def constructor_def ROOT_def EMPTY_def transition_def getSuffix_def
  resolve_simps getWord_simps getWords_loop.simps getWords_simps query_def query_result_def
  Object_keys_def clearSuffixes_loop.simps clearSuffixes_def add_new_def add_step_def
  add_def delete_def Let_def

section \<open>The result monad\<close>

lemma bnd_simps [simp]:
  "bnd None f = None"
  "bnd (Some (Inl e, s)) f = Some (Inl e, s)"
  "bnd (Some (Inr v, s)) f = f v s"
  "bnd (ret v s) f = f v s"
  "bnd (raise e s) f = raise e s"
  by (simp_all add: bnd_def ret_def raise_def)

lemma bnd_eq_Some:
  "bnd m f = Some (r, s') \<longleftrightarrow>
     (\<exists>e. m = Some (Inl e, s') \<and> r = Inl e) \<or>
     (\<exists>v s1. m = Some (Inr v, s1) \<and> f v s1 = Some (r, s'))"
  by (auto simp: bnd_def split: option.splits sum.splits prod.splits)

lemma ret_eq_Some [simp]: "ret v s = Some (r, s') \<longleftrightarrow> r = Inr v \<and> s' = s"
  by (auto simp: ret_def)

lemma raise_eq_Some [simp]: "raise e s = Some (r, s') \<longleftrightarrow> r = Inl e \<and> s' = s"
  by (auto simp: raise_def)

lemma getNode_Some [simp]: "nodes s k = Some nd \<Longrightarrow> getNode k s = ret nd s"
  by (simp add: getNode_def)

lemma getNode_None [simp]: "nodes s k = None \<Longrightarrow> getNode k s = raise TypeError s"
  by (simp add: getNode_def)

lemma getNode_eq_Some:
  "getNode k s = Some (r, s') \<Longrightarrow> s' = s"
  by (auto simp: getNode_def split: option.splits)

section \<open>What a call leaves of the dictionary\<close>

lemma same_words_refl [simp]: "same_words s s"
  by (simp add: same_words_def)

lemma same_words_trans: "same_words s s1 \<Longrightarrow> same_words s1 s2 \<Longrightarrow> same_words s s2"
  by (simp add: same_words_def)

lemma same_words_bnd:
  assumes "bnd m f = Some (r, s')"
    and "\<And>r1 s1. m = Some (r1, s1) \<Longrightarrow> same_words s s1"
    and "\<And>v s1 . m = Some (Inr v, s1) \<Longrightarrow> f v s1 = Some (r, s') \<Longrightarrow> same_words s1 s'"
  shows "same_words s s'"
  using assms unfolding bnd_eq_Some by (blast intro: same_words_trans)

lemma same_words_getNode: "getNode k s = Some (r, s') \<Longrightarrow> same_words s s'"
  by (auto simp: getNode_def split: option.splits)

lemma same_words_setNode: "setNode k nd s = Some (r, s') \<Longrightarrow> same_words s s'"
  by (auto simp: setNode_def same_words_def)

lemma same_words_setSuffix: "setSuffix k v s = Some (r, s') \<Longrightarrow> same_words s s'"
  unfolding setSuffix_def
  by (erule same_words_bnd) (auto dest: same_words_getNode same_words_setNode)

lemma same_words_setEnd: "setEnd k v s = Some (r, s') \<Longrightarrow> same_words s s'"
  unfolding setEnd_def
  by (erule same_words_bnd) (auto dest: same_words_getNode same_words_setNode)

lemma same_words_setChild: "setChild k c v s = Some (r, s') \<Longrightarrow> same_words s s'"
  unfolding setChild_def
  by (erule same_words_bnd) (auto dest: same_words_getNode same_words_setNode)

lemma same_words_clearSuffixes_loop:
  assumes "clearSuffixes_loop isKey node toClear s = Some y"
  shows "same_words s (snd y)"
proof (rule clearSuffixes_loop.raw_induct
    [where P = "\<lambda>isKey node toClear s y. same_words s (snd y)", OF _ assms], goal_cases)
  case (1 loop isKey node toClear s y)
  obtain r s' where y: "y = (r, s')" by (cases y)
  note IH = 1(1)
  note eq = 1(2)
  show ?case
  proof (cases toClear)
    case Nil
    with eq y show ?thesis by simp
  next
    case (Cons clear rest)
    show ?thesis
    proof (cases "isKey \<and> clear = node")
      case True
      with eq Cons have "loop isKey node rest s = Some y" by simp
      then show ?thesis by (rule IH)
    next
      case False
      with eq Cons y have
        "bnd (getNode node s) (\<lambda>nd s.
           bnd (setNode node (nd\<lparr>suffixOf := filter (\<lambda>kv. fst kv \<noteq> clear) (suffixOf nd)\<rparr>) s) (\<lambda>_ s.
           bnd (setSuffix clear None s) (\<lambda>_ s.
           bnd (getNode clear s) (\<lambda>cn s.
           bnd (loop True clear (Object_keys (suffixOf cn)) s) (\<lambda>_ s.
           loop isKey node rest s))))) = Some (r, s')"
        by simp
      then have "same_words s s'"
        by (auto simp: bnd_eq_Some same_words_def
            dest!: same_words_getNode same_words_setNode same_words_setSuffix IH)
      with y show ?thesis by simp
    qed
  qed
qed

lemma same_words_clearSuffixes: "clearSuffixes node s = Some (r, s') \<Longrightarrow> same_words s s'"
  unfolding clearSuffixes_def
  by (erule same_words_bnd) (auto dest: same_words_getNode same_words_clearSuffixes_loop)

lemma same_words_add_new: "add_new ch isLast cur s = Some (r, s') \<Longrightarrow> same_words s s'"
  unfolding add_new_def Let_def
  apply (erule same_words_bnd)
   apply (erule same_words_clearSuffixes)
  apply (erule same_words_bnd)
   apply (erule same_words_setNode)
  apply (erule same_words_bnd)
   apply (erule same_words_setChild)
  apply (auto simp: same_words_def)
  done

lemma same_words_add_step: "add_step ch isLast cur s = Some (r, s') \<Longrightarrow> same_words s s'"
  unfolding add_step_def
  apply (erule same_words_bnd)
   apply (erule same_words_getNode)
  apply (auto split: option.splits if_splits dest: same_words_add_new same_words_setEnd
      elim!: same_words_bnd)
  done

lemma same_words_add_loop: "add_loop cs cur s = Some (r, s') \<Longrightarrow> same_words s s'"
proof (induction cs arbitrary: cur s)
  case Nil
  then show ?case by simp
next
  case (Cons c cs)
  from Cons.prems show ?case
    by (auto elim!: same_words_bnd dest: same_words_add_step Cons.IH)
qed

lemma add_leaves_word_active:
  assumes "add w s = Some (r, s')" "w \<noteq> []"
  shows "w \<in> dict s'"
proof (cases "w \<in> dict s")
  case True
  with assms show ?thesis by (simp add: add_def)
next
  case False
  with assms have "add_loop w ROOT (s\<lparr>dict := insert w (dict s), ghosts := ghosts s - {w}\<rparr>)
      = Some (r, s')"
    by (simp add: add_def)
  from same_words_add_loop[OF this] show ?thesis by (simp add: same_words_def)
qed

lemma same_words_delete_loop: "delete_loop cs cur s = Some (r, s') \<Longrightarrow> s' = s"
  by (induction cs arbitrary: cur) (auto simp: bnd_eq_Some getNode_def split: option.splits if_splits)

lemma delete_leaves_word_inactive:
  assumes "delete w s = Some (r, s')"
  shows "w \<notin> dict s'"
proof (cases "w \<in> dict s")
  case False
  with assms show ?thesis by (simp add: delete_def)
next
  case True
  with assms have "bnd (delete_loop w ROOT (s\<lparr>dict := dict s - {w}, ghosts := insert w (ghosts s)\<rparr>))
             (\<lambda>cur s. setEnd cur False s) = Some (r, s')"
    by (simp add: delete_def)
  then have "same_words (s\<lparr>dict := dict s - {w}, ghosts := insert w (ghosts s)\<rparr>) s'"
    by (rule same_words_bnd) (auto dest: same_words_delete_loop same_words_setEnd)
  then show ?thesis by (simp add: same_words_def)
qed

subsection \<open>States that differ in the memo fields only\<close>

lemma forget_eq_iff:
  "forget s' = forget s \<longleftrightarrow>
     dict s' = dict s \<and> ghosts s' = ghosts s \<and> next_id s' = next_id s
     \<and> (\<forall>k. map_option forget_node (nodes s' k) = map_option forget_node (nodes s k))"
  by (cases s, cases s') (auto simp: forget_def fun_eq_iff)

lemma forget_node_eq_iff:
  "forget_node a = forget_node b \<longleftrightarrow>
     char a = char b \<and> children a = children b \<and> end_flag a = end_flag b
     \<and> parent a = parent b \<and> suffixOf a = suffixOf b"
  by (cases a, cases b) (auto simp: forget_node_def)

lemma forget_nodesD:
  assumes "forget s' = forget s" and "nodes s' k = Some nd'"
  obtains nd where "nodes s k = Some nd" "char nd = char nd'" "children nd = children nd'"
    "end_flag nd = end_flag nd'" "parent nd = parent nd'" "suffixOf nd = suffixOf nd'"
proof -
  from assms(1) have "map_option forget_node (nodes s' k) = map_option forget_node (nodes s k)"
    by (simp add: forget_eq_iff)
  with assms(2) have "map_option forget_node (nodes s k) = Some (forget_node nd')"
    by simp
  then obtain nd where "nodes s k = Some nd" "forget_node nd = forget_node nd'"
    by auto
  then show thesis using that by (simp add: forget_node_eq_iff)
qed

lemma forget_sym: "forget s' = forget s \<Longrightarrow> forget s = forget s'"
  by simp

lemma forget_dom:
  assumes "forget s' = forget s"
  shows "nodes s' k = None \<longleftrightarrow> nodes s k = None"
proof -
  from assms have "map_option forget_node (nodes s' k) = map_option forget_node (nodes s k)"
    by (simp add: forget_eq_iff)
  then show ?thesis by (cases "nodes s k"; cases "nodes s' k"; simp)
qed

lemma forget_same_words: "forget s' = forget s \<Longrightarrow> same_words s s'"
  by (simp add: forget_eq_iff same_words_def)

lemma parents_ok_forget:
  assumes "forget s' = forget s" "parents_ok wd s"
  shows "parents_ok wd s'"
  unfolding parents_ok_def
proof (intro allI impI)
  fix k nd'
  assume k: "nodes s' k = Some nd'" "k \<noteq> ROOT"
  from assms(1) k(1) obtain nd where nd: "nodes s k = Some nd" "char nd = char nd'"
    "parent nd = parent nd'" by (rule forget_nodesD)
  with assms(2) k(2) obtain c pn where c: "char nd = [c]" "nodes s (parent nd) = Some pn"
    "children pn [c] = Some k" "wd k = wd (parent nd) @ [c]"
    unfolding parents_ok_def by blast
  from forget_sym[OF assms(1)] c(2) obtain pn' where "nodes s' (parent nd) = Some pn'"
    "children pn' = children pn" by (rule forget_nodesD)
  with c nd show "\<exists>c pn. char nd' = [c] \<and> nodes s' (parent nd') = Some pn \<and> children pn [c] = Some k
                \<and> wd k = wd (parent nd') @ [c]"
    by auto
qed

lemma children_ok_forget:
  assumes "forget s' = forget s" "children_ok s"
  shows "children_ok s'"
  unfolding children_ok_def
proof (intro allI impI)
  fix k nd' ch k'
  assume k: "nodes s' k = Some nd'" "children nd' ch = Some k'"
  from assms(1) k(1) obtain nd where nd: "nodes s k = Some nd" "children nd = children nd'"
    by (rule forget_nodesD)
  with assms(2) k(2) obtain kn where kn: "k' \<noteq> ROOT" "nodes s k' = Some kn" "parent kn = k" "char kn = ch"
    unfolding children_ok_def by metis
  from forget_sym[OF assms(1)] kn(2) obtain kn' where "nodes s' k' = Some kn'"
    "parent kn' = parent kn" "char kn' = char kn" by (rule forget_nodesD)
  with kn show "k' \<noteq> ROOT \<and> (\<exists>kn. nodes s' k' = Some kn \<and> parent kn = k \<and> char kn = ch)"
    by auto
qed

lemma fresh_ok_forget:
  assumes "forget s' = forget s" "fresh_ok s"
  shows "fresh_ok s'"
  unfolding fresh_ok_def
proof (intro allI impI)
  fix k nd'
  assume k: "nodes s' k = Some nd'"
  from assms(1) k(1) obtain nd where nd: "nodes s k = Some nd" "suffixOf nd = suffixOf nd'"
    by (rule forget_nodesD)
  moreover from assms(1) have "next_id s' = next_id s" by (simp add: forget_eq_iff)
  ultimately show "suffixOf nd' = [] \<and> k \<le> next_id s'"
    using assms(2) unfolding fresh_ok_def by metis
qed

lemma dict_inv_forget:
  assumes "forget s' = forget s" "dict_inv wd D s"
  shows "dict_inv wd D s'"
  unfolding dict_inv_def
proof (intro conjI allI impI ballI)
  fix k nd'
  assume k: "nodes s' k = Some nd'"
  from assms(1) k(1) obtain nd where nd: "nodes s k = Some nd" "end_flag nd = end_flag nd'"
    by (rule forget_nodesD)
  with assms(2) show "end_flag nd' \<longleftrightarrow> wd k \<in> D"
    unfolding dict_inv_def by metis
next
  fix w assume "w \<in> D"
  with assms(2) show "w \<noteq> []" unfolding dict_inv_def by blast
next
  fix w assume "w \<in> D"
  with assms(2) obtain k nd where k: "nodes s k = Some nd" "wd k = w"
    unfolding dict_inv_def by blast
  from forget_sym[OF assms(1)] k(1) obtain nd' where "nodes s' k = Some nd'"
    by (rule forget_nodesD)
  with k show "\<exists>k nd. nodes s' k = Some nd \<and> wd k = w" by blast
qed

section \<open>The values of the calls\<close>

lemma resolves_node: "resolves s c v \<Longrightarrow> nodes s (call_node c) \<noteq> None"
  by (induction rule: resolves.induct) auto

lemma resolves_det: "resolves s c v \<Longrightarrow> resolves s c v' \<Longrightarrow> v = v'"
proof (induction arbitrary: v' rule: resolves.induct)
  case (child n nd ch k)
  from child.prems child.hyps show ?case by (auto elim: resolves_TransitionE)
next
  case (root nd ch)
  from root.prems root.hyps show ?case by (auto elim: resolves_TransitionE)
next
  case (fail n nd ch f v)
  from fail.prems fail.hyps(1-3) obtain f' where "resolves s (GetSuffix n) f'" "resolves s (Transition f' ch) v'"
    by (auto elim: resolves_TransitionE)
  with fail.IH show ?case by blast
next
  case (memo n nd v)
  from memo.prems memo.hyps show ?case by (auto elim: resolves_GetSuffixE)
next
  case (top n nd)
  from top.prems top.hyps show ?case by (auto elim: resolves_GetSuffixE)
next
  case (deep n nd ps v)
  from deep.prems deep.hyps(1-3) obtain ps' where "resolves s (GetSuffix (parent nd)) ps'"
    "resolves s (Transition ps' (char nd)) v'"
    by (auto elim: resolves_GetSuffixE)
  with deep.IH show ?case by blast
qed

subsection \<open>Access to the invariant\<close>

lemma trie_inv_rootD:
  assumes "trie_inv wd s"
  obtains r where "nodes s ROOT = Some r" "suffix_link r = Some ROOT" "word r = Some []" "wd ROOT = []"
  using assms unfolding trie_inv_def root_ok_def by blast

lemma trie_inv_parentD:
  assumes "trie_inv wd s" "nodes s k = Some nd" "k \<noteq> ROOT"
  obtains c pn where "char nd = [c]" "nodes s (parent nd) = Some pn" "children pn [c] = Some k"
    "wd k = wd (parent nd) @ [c]"
  using assms unfolding trie_inv_def parents_ok_def by blast

lemma trie_inv_childD:
  assumes "trie_inv wd s" "nodes s k = Some nd" "children nd ch = Some k'"
  obtains kn where "k' \<noteq> ROOT" "nodes s k' = Some kn" "parent kn = k" "char kn = ch"
    "wd k' = wd k @ ch"
proof -
  from assms obtain kn where kn: "k' \<noteq> ROOT" "nodes s k' = Some kn" "parent kn = k" "char kn = ch"
    unfolding trie_inv_def children_ok_def by blast
  from assms(1) kn(2,1) obtain c where "char kn = [c]" "wd k' = wd (parent kn) @ [c]"
    by (rule trie_inv_parentD)
  with kn that show thesis by simp
qed

lemma trie_inv_linkD:
  assumes "trie_inv wd s" "nodes s k = Some nd" "suffix_link nd = Some y" "k \<noteq> ROOT"
  shows "nodes s y \<noteq> None" "strict_suffix (wd y) (wd k)"
  using assms unfolding trie_inv_def links_ok_def by blast+

lemma trie_inv_unmemoized_not_root:
  assumes "trie_inv wd s" "nodes s k = Some nd" "suffix_link nd = None"
  shows "k \<noteq> ROOT"
  using assms by (auto elim!: trie_inv_rootD)

lemma strict_suffix_snoc: "strict_suffix xs ys \<Longrightarrow> strict_suffix (xs @ zs) (ys @ zs)"
  by (auto simp: strict_suffix_def suffix_def)

lemma strict_suffix_length: "strict_suffix xs ys \<Longrightarrow> length xs < length ys"
  by (auto simp: strict_suffix_def suffix_def)

lemma resolves_props:
  assumes inv: "trie_inv wd s"
  shows "resolves s c v \<Longrightarrow>
     nodes s v \<noteq> None \<and>
     (case c of
        Transition n ch \<Rightarrow> suffix (wd v) (wd n @ ch)
      | GetSuffix n \<Rightarrow> (n = ROOT \<and> v = ROOT) \<or> strict_suffix (wd v) (wd n))"
proof (induction rule: resolves.induct)
  case (child n nd ch k)
  from inv child.hyps show ?case by (auto elim!: trie_inv_childD)
next
  case (root nd ch)
  from inv show ?case by (auto elim!: trie_inv_rootD)
next
  case (fail n nd ch f v)
  from fail.IH fail.hyps(3) have "strict_suffix (wd f) (wd n)" "suffix (wd v) (wd f @ ch)" "nodes s v \<noteq> None"
    by auto
  then have "suffix (wd v) (wd n @ ch)"
    by (meson strict_suffix_snoc suffix_order.dual_order.strict_implies_order suffix_order.trans)
  with \<open>nodes s v \<noteq> None\<close> show ?case by simp
next
  case (memo n nd v)
  show ?case
  proof (cases "n = ROOT")
    case True
    with inv memo.hyps show ?thesis by (auto elim!: trie_inv_rootD)
  next
    case False
    with trie_inv_linkD[OF inv memo.hyps] show ?thesis by simp
  qed
next
  case (top n nd)
  from inv top.hyps(1,2) have n: "n \<noteq> ROOT" by (rule trie_inv_unmemoized_not_root)
  with inv top.hyps(1) obtain c where "wd n = wd (parent nd) @ [c]" by (auto elim: trie_inv_parentD)
  with top.hyps(3) inv have "strict_suffix (wd ROOT) (wd n)" "nodes s ROOT \<noteq> None"
    by (auto simp: strict_suffix_def elim!: trie_inv_rootD)
  then show ?case by simp
next
  case (deep n nd ps v)
  from inv deep.hyps(1,2) have n: "n \<noteq> ROOT" by (rule trie_inv_unmemoized_not_root)
  with inv deep.hyps(1) obtain c where c: "char nd = [c]" "wd n = wd (parent nd) @ [c]"
    by (auto elim: trie_inv_parentD)
  from deep.IH deep.hyps(3) have "strict_suffix (wd ps) (wd (parent nd))"
    "suffix (wd v) (wd ps @ char nd)" "nodes s v \<noteq> None"
    by auto
  with c have "strict_suffix (wd v) (wd n)"
    by (metis strict_suffix_snoc suffix_order.le_less_trans)
  with \<open>nodes s v \<noteq> None\<close> show ?case by simp
qed

lemma resolves_GetSuffix_props:
  assumes "trie_inv wd s" "resolves s (GetSuffix n) v"
  shows "nodes s v \<noteq> None" "(n = ROOT \<and> v = ROOT) \<or> strict_suffix (wd v) (wd n)"
  using resolves_props[OF assms] by simp_all

lemma resolves_Transition_props:
  assumes "trie_inv wd s" "resolves s (Transition n ch) v"
  shows "nodes s v \<noteq> None" "suffix (wd v) (wd n @ ch)"
  using resolves_props[OF assms] by simp_all

subsection \<open>Every call has a value\<close>

lemma resolves_total:
  assumes inv: "trie_inv wd s"
  shows "nodes s (call_node c) \<noteq> None \<Longrightarrow> \<exists>v. resolves s c v"
proof (induction "call_size wd c" arbitrary: c rule: less_induct)
  case less
  show ?case
  proof (cases c)
    case (Transition n ch)
    with less.prems obtain nd where nd: "nodes s n = Some nd" by auto
    show ?thesis
    proof (cases "children nd ch")
      case (Some k)
      with nd Transition show ?thesis by (auto intro: resolves.child)
    next
      case None
      show ?thesis
      proof (cases "n = ROOT")
        case True
        with nd None Transition show ?thesis by (auto intro: resolves.root)
      next
        case False
        from nd Transition have "\<exists>f. resolves s (GetSuffix n) f"
          by (intro less.hyps) auto
        then obtain f where f: "resolves s (GetSuffix n) f" ..
        from resolves_GetSuffix_props[OF inv f] False
        have fp: "nodes s f \<noteq> None" "strict_suffix (wd f) (wd n)" by auto
        then have "\<exists>v. resolves s (Transition f ch) v"
          using Transition by (intro less.hyps) (auto dest: strict_suffix_length)
        then obtain v where "resolves s (Transition f ch) v" ..
        with nd None False f Transition show ?thesis by (auto intro: resolves.fail)
      qed
    qed
  next
    case (GetSuffix n)
    with less.prems obtain nd where nd: "nodes s n = Some nd" by auto
    show ?thesis
    proof (cases "suffix_link nd")
      case (Some y)
      with nd GetSuffix show ?thesis by (auto intro: resolves.memo)
    next
      case None
      from inv nd None have n: "n \<noteq> ROOT" by (rule trie_inv_unmemoized_not_root)
      show ?thesis
      proof (cases "parent nd = ROOT")
        case True
        with nd None GetSuffix show ?thesis by (auto intro: resolves.top)
      next
        case False
        from inv nd n obtain c pn where c: "char nd = [c]" "nodes s (parent nd) = Some pn"
          "wd n = wd (parent nd) @ [c]" by (auto elim: trie_inv_parentD)
        then have "\<exists>ps. resolves s (GetSuffix (parent nd)) ps"
          using GetSuffix by (intro less.hyps) auto
        then obtain ps where ps: "resolves s (GetSuffix (parent nd)) ps" ..
        from resolves_GetSuffix_props[OF inv ps] False
        have pp: "nodes s ps \<noteq> None" "strict_suffix (wd ps) (wd (parent nd))" by auto
        then have "\<exists>v. resolves s (Transition ps (char nd)) v"
          using GetSuffix c by (intro less.hyps) (auto dest: strict_suffix_length)
        then obtain v where "resolves s (Transition ps (char nd)) v" ..
        with nd None False ps GetSuffix show ?thesis by (auto intro: resolves.deep)
      qed
    qed
  qed
qed

section \<open>Memoizing\<close>

lemma setSuffix_Some:
  "nodes s k = Some nd \<Longrightarrow>
   setSuffix k v s = ret () (s\<lparr>nodes := (nodes s)(k \<mapsto> nd\<lparr>suffix_link := v\<rparr>)\<rparr>)"
  by (simp add: setSuffix_def setNode_def)

lemma setWord_Some:
  "nodes s k = Some nd \<Longrightarrow>
   setWord k w s = ret () (s\<lparr>nodes := (nodes s)(k \<mapsto> nd\<lparr>word := Some w\<rparr>)\<rparr>)"
  by (simp add: setWord_def setNode_def)

lemma setEnd_Some:
  "nodes s k = Some nd \<Longrightarrow>
   setEnd k b s = ret () (s\<lparr>nodes := (nodes s)(k \<mapsto> nd\<lparr>end_flag := b\<rparr>)\<rparr>)"
  by (simp add: setEnd_def setNode_def)

lemma forget_memo_update:
  assumes "nodes s k = Some nd"
  shows "forget (s\<lparr>nodes := (nodes s)(k \<mapsto> nd\<lparr>suffix_link := v\<rparr>)\<rparr>) = forget s"
    and "forget (s\<lparr>nodes := (nodes s)(k \<mapsto> nd\<lparr>word := w\<rparr>)\<rparr>) = forget s"
  using assms by (auto simp: forget_eq_iff forget_node_def)

text \<open>The value of a call does not change when a link is memoized with its value.\<close>

lemma resolves_memoize:
  assumes x: "nodes s x = Some xd" and y: "resolves s (GetSuffix x) y"
  defines "s' \<equiv> s\<lparr>nodes := (nodes s)(x \<mapsto> xd\<lparr>suffix_link := Some y\<rparr>)\<rparr>"
  shows "resolves s c v \<Longrightarrow> resolves s' c v"
proof (induction rule: resolves.induct)
  case (child n nd ch k)
  with x have "\<exists>nd'. nodes s' n = Some nd' \<and> children nd' ch = Some k"
    by (cases "n = x") (auto simp: s'_def)
  then show ?case by (auto intro: resolves.child)
next
  case (root nd ch)
  with x have "\<exists>nd'. nodes s' ROOT = Some nd' \<and> children nd' ch = None"
    by (cases "ROOT = x") (auto simp: s'_def)
  then show ?case by (auto intro: resolves.root)
next
  case (fail n nd ch f v)
  with x have "\<exists>nd'. nodes s' n = Some nd' \<and> children nd' ch = None"
    by (cases "n = x") (auto simp: s'_def)
  with fail show ?case by (auto intro: resolves.fail)
next
  case (memo n nd v)
  show ?case
  proof (cases "n = x")
    case True
    with memo have "resolves s (GetSuffix x) v" by (auto intro: resolves.memo)
    with y have "v = y" by (rule resolves_det[rotated])
    with True show ?thesis by (auto simp: s'_def intro: resolves.memo)
  next
    case False
    with memo show ?thesis by (auto simp: s'_def intro: resolves.memo)
  qed
next
  case (top n nd)
  show ?case
  proof (cases "n = x")
    case True
    with top have "resolves s (GetSuffix x) ROOT" by (auto intro: resolves.top)
    with y have "ROOT = y" by (rule resolves_det[rotated])
    with True show ?thesis by (auto simp: s'_def intro: resolves.memo)
  next
    case False
    with top show ?thesis by (auto simp: s'_def intro: resolves.top)
  qed
next
  case (deep n nd ps v)
  show ?case
  proof (cases "n = x")
    case True
    with deep have "resolves s (GetSuffix x) v" by (auto intro: resolves.deep)
    with y have "v = y" by (rule resolves_det[rotated])
    with True show ?thesis by (auto simp: s'_def intro: resolves.memo)
  next
    case False
    with deep.hyps have "nodes s' n = Some nd" by (simp add: s'_def)
    with deep show ?thesis by (auto intro: resolves.deep)
  qed
qed

text \<open>Nor when a word is memoized.\<close>

lemma resolves_word_update:
  fixes w :: "string option"
  assumes x: "nodes s x = Some xd"
  defines "s' \<equiv> s\<lparr>nodes := (nodes s)(x \<mapsto> xd\<lparr>word := w\<rparr>)\<rparr>"
  shows "resolves s c v \<Longrightarrow> resolves s' c v"
proof (induction rule: resolves.induct)
  case (child n nd ch k)
  with x have "\<exists>nd'. nodes s' n = Some nd' \<and> children nd' ch = Some k"
    by (cases "n = x") (auto simp: s'_def)
  then show ?case by (auto intro: resolves.child)
next
  case (root nd ch)
  with x have "\<exists>nd'. nodes s' ROOT = Some nd' \<and> children nd' ch = None"
    by (cases "ROOT = x") (auto simp: s'_def)
  then show ?case by (auto intro: resolves.root)
next
  case (fail n nd ch f v)
  with x have "\<exists>nd'. nodes s' n = Some nd' \<and> children nd' ch = None"
    by (cases "n = x") (auto simp: s'_def)
  with fail show ?case by (auto intro: resolves.fail)
next
  case (memo n nd v)
  with x have "\<exists>nd'. nodes s' n = Some nd' \<and> suffix_link nd' = Some v"
    by (cases "n = x") (auto simp: s'_def)
  then show ?case by (auto intro: resolves.memo)
next
  case (top n nd)
  with x have "\<exists>nd'. nodes s' n = Some nd' \<and> suffix_link nd' = None \<and> parent nd' = ROOT"
    by (cases "n = x") (auto simp: s'_def)
  then show ?case by (auto intro: resolves.top)
next
  case (deep n nd ps v)
  with x have "\<exists>nd'. nodes s' n = Some nd' \<and> suffix_link nd' = None \<and> parent nd' = parent nd
      \<and> char nd' = char nd"
    by (cases "n = x") (auto simp: s'_def)
  then obtain nd' where "nodes s' n = Some nd'" "suffix_link nd' = None" "parent nd' = parent nd"
      "char nd' = char nd" by blast
  with deep show ?case by (auto intro: resolves.deep[where nd = nd'])
qed

subsection \<open>States with more memoized\<close>

lemma memo_ext_refl [simp]: "memo_ext s s"
  by (simp add: memo_ext_def)

lemma memo_ext_forget: "memo_ext s t \<Longrightarrow> forget t = forget s"
  by (simp add: memo_ext_def)

lemma memo_ext_resolves: "memo_ext s t \<Longrightarrow> resolves s c v \<Longrightarrow> resolves t c v"
  by (simp add: memo_ext_def)

lemma memo_ext_memo: "memo_ext s t \<Longrightarrow> nodes s k = Some nd \<Longrightarrow> suffix_link nd = Some y \<Longrightarrow>
   \<exists>nd'. nodes t k = Some nd' \<and> suffix_link nd' = Some y"
  unfolding memo_ext_def by blast

lemma memo_ext_word: "memo_ext s t \<Longrightarrow> nodes s k = Some nd \<Longrightarrow> word nd = Some w \<Longrightarrow>
   \<exists>nd'. nodes t k = Some nd' \<and> word nd' = Some w"
  unfolding memo_ext_def by blast

lemma memo_ext_trans:
  assumes st: "memo_ext s t" and tu: "memo_ext t u"
  shows "memo_ext s u"
  unfolding memo_ext_def
proof (intro conjI allI impI)
  from st tu show "forget u = forget s" by (simp add: memo_ext_def)
next
  fix k nd y assume "nodes s k = Some nd" "suffix_link nd = Some y"
  with st obtain nd1 where "nodes t k = Some nd1" "suffix_link nd1 = Some y"
    by (blast dest: memo_ext_memo)
  with tu show "\<exists>nd'. nodes u k = Some nd' \<and> suffix_link nd' = Some y"
    by (rule memo_ext_memo)
next
  fix c v assume "resolves s c v"
  with st have "resolves t c v" by (rule memo_ext_resolves)
  with tu show "resolves u c v" by (rule memo_ext_resolves)
next
  fix k nd w assume "nodes s k = Some nd" "word nd = Some w"
  with st obtain nd1 where "nodes t k = Some nd1" "word nd1 = Some w"
    by (blast dest: memo_ext_word)
  with tu show "\<exists>nd'. nodes u k = Some nd' \<and> word nd' = Some w"
    by (rule memo_ext_word)
qed

lemma trie_inv_forget_parts:
  assumes "forget s' = forget s" "trie_inv wd s"
  shows "parents_ok wd s'" "children_ok s'" "fresh_ok s'"
  using assms parents_ok_forget children_ok_forget fresh_ok_forget
  unfolding trie_inv_def by blast+

lemma memoize_ok:
  assumes inv: "trie_inv wd t" and n: "nodes t n = Some nd" and v: "resolves t (GetSuffix n) v"
  defines "t' \<equiv> t\<lparr>nodes := (nodes t)(n \<mapsto> nd\<lparr>suffix_link := Some v\<rparr>)\<rparr>"
  shows "trie_inv wd t'" and "memo_ext t t'"
proof -
  have fg: "forget t' = forget t"
    unfolding t'_def using n by (rule forget_memo_update)
  from resolves_GetSuffix_props[OF inv v]
  have vp: "nodes t v \<noteq> None" "(n = ROOT \<and> v = ROOT) \<or> strict_suffix (wd v) (wd n)" .
  have "root_ok wd t'"
  proof -
    from inv obtain r where r: "nodes t ROOT = Some r" "suffix_link r = Some ROOT" "word r = Some []"
      "wd ROOT = []" by (rule trie_inv_rootD)
    show ?thesis
    proof (cases "n = ROOT")
      case True
      with vp(2) r have "v = ROOT" by (auto simp: strict_suffix_def)
      with True r n show ?thesis by (auto simp: root_ok_def t'_def)
    next
      case False
      with r show ?thesis by (auto simp: root_ok_def t'_def)
    qed
  qed
  moreover have "words_ok wd t'"
    using inv n unfolding trie_inv_def words_ok_def t'_def by (auto split: if_splits)
  moreover have "links_ok wd t'"
    unfolding links_ok_def
  proof (intro allI impI)
    fix k kd y
    assume k: "nodes t' k = Some kd" "suffix_link kd = Some y" "k \<noteq> ROOT"
    have "nodes t y \<noteq> None \<and> strict_suffix (wd y) (wd k)"
    proof (cases "k = n")
      case True
      with k have "y = v" by (auto simp: t'_def)
      with vp True k(3) show ?thesis by simp
    next
      case False
      with k have "nodes t k = Some kd" by (simp add: t'_def)
      with trie_inv_linkD[OF inv this k(2,3)] show ?thesis by simp
    qed
    moreover have "nodes t' y = None \<longleftrightarrow> nodes t y = None"
      using fg by (rule forget_dom)
    ultimately show "nodes t' y \<noteq> None \<and> strict_suffix (wd y) (wd k)" by simp
  qed
  ultimately show "trie_inv wd t'"
    using trie_inv_forget_parts[OF fg inv] by (simp add: trie_inv_def)
  show "memo_ext t t'"
    unfolding memo_ext_def
  proof (intro conjI allI impI)
    show "forget t' = forget t" by (rule fg)
  next
    fix k kd y
    assume k: "nodes t k = Some kd" "suffix_link kd = Some y"
    show "\<exists>nd'. nodes t' k = Some nd' \<and> suffix_link nd' = Some y"
    proof (cases "k = n")
      case True
      with k have "resolves t (GetSuffix n) y" by (auto intro: resolves.memo)
      with v have "y = v" by (rule resolves_det[rotated])
      with True show ?thesis by (simp add: t'_def)
    next
      case False
      with k show ?thesis by (simp add: t'_def)
    qed
  next
    fix c u
    assume "resolves t c u"
    then show "resolves t' c u"
      unfolding t'_def by (rule resolves_memoize[OF n v])
  next
    fix k kd w
    assume "nodes t k = Some kd" "word kd = Some w"
    with n show "\<exists>nd'. nodes t' k = Some nd' \<and> word nd' = Some w"
      by (cases "k = n") (auto simp: t'_def)
  qed
qed

lemma memo_ext_nodesD:
  assumes "memo_ext s t" "nodes s k = Some nd"
  obtains nd' where "nodes t k = Some nd'" "char nd' = char nd" "children nd' = children nd"
    "end_flag nd' = end_flag nd" "parent nd' = parent nd"
proof -
  from assms(1) have "forget s = forget t" by (simp add: memo_ext_def)
  from this assms(2) obtain nd' where "nodes t k = Some nd'" "char nd' = char nd"
    "children nd' = children nd" "end_flag nd' = end_flag nd" "parent nd' = parent nd"
    by (rule forget_nodesD)
  then show thesis by (rule that)
qed

section \<open>\<^verbatim>\<open>_transition\<close> and \<^verbatim>\<open>_getSuffix\<close> return the value, or overflow\<close>

lemma resolve_Transition:
  "resolve (Suc d) (Transition node ch) s =
     bnd (getNode node s) (\<lambda>nd s.
       case children nd ch of
         Some k \<Rightarrow> ret k s
       | None \<Rightarrow>
           if node = ROOT then ret ROOT s
           else bnd (resolve d (GetSuffix node) s) (\<lambda>sfx s. resolve d (Transition sfx ch) s))"
  by (simp add: resolve_simps)

lemma resolve_GetSuffix:
  "resolve (Suc d) (GetSuffix node) s =
     bnd (getNode node s) (\<lambda>nd s.
       case suffix_link nd of
         Some sfx \<Rightarrow> ret sfx s
       | None \<Rightarrow>
           bnd (if parent nd = ROOT then ret ROOT s
                else bnd (resolve d (GetSuffix (parent nd)) s) (\<lambda>ps s.
                     bnd (getNode node s) (\<lambda>nd' s. resolve d (Transition ps (char nd')) s)))
             (\<lambda>sfx s. bnd (setSuffix node (Some sfx) s) (\<lambda>_ s. ret sfx s)))"
  by (simp add: resolve_simps)

lemmas resolves_Transition_cases = resolves_TransitionE[consumes 1, case_names child root fail]
lemmas resolves_GetSuffix_cases = resolves_GetSuffixE[consumes 1, case_names memo top deep]

lemma resolve_0: "resolve 0 c s = Some (Inl RangeError, s)"
  by (simp add: resolve_simps raise_def)

lemma label_nonempty:
  assumes "trie_inv wd s" "nodes s k = Some nd" "k \<noteq> ROOT"
  shows "0 < length (wd k)" and "length (wd k) = Suc (length (wd (parent nd)))"
proof -
  from assms obtain c where "wd k = wd (parent nd) @ [c]" by (auto elim: trie_inv_parentD)
  then show "0 < length (wd k)" and "length (wd k) = Suc (length (wd (parent nd)))" by simp_all
qed

text \<open>
  A call on a stack of \<open>d\<close> frames ends. It returns the value of the call, or it throws
  \<^verbatim>\<open>RangeError\<close>; it returns when \<open>d\<close> frames are enough for the call. The state it leaves
  satisfies the invariant and has more memoized.
\<close>

lemma resolve_runs:
  "trie_inv wd t \<Longrightarrow> resolves t c v \<Longrightarrow>
   \<exists>r t'. resolve d c t = Some (r, t') \<and> trie_inv wd t' \<and> memo_ext t t'
      \<and> (r = Inr v \<or> r = Inl RangeError) \<and> (frames wd c \<le> d \<longrightarrow> r = Inr v)"
proof (induction d arbitrary: c v t)
  case 0
  have "0 < frames wd c" by (cases c) simp_all
  with 0 show ?case by (simp add: resolve_0)
next
  case (Suc d)
  note inv = Suc.prems(1)
  show ?case
  proof (cases c)
    case (Transition n ch)
    from Suc.prems(2)[unfolded Transition] show ?thesis
    proof (cases rule: resolves_Transition_cases)
      case (child nd)
      then have "resolve (Suc d) (Transition n ch) t = Some (Inr v, t)"
        by (simp add: resolve_Transition ret_def)
      with inv Transition show ?thesis by simp
    next
      case (root nd)
      then have "resolve (Suc d) (Transition n ch) t = Some (Inr v, t)"
        by (simp add: resolve_Transition ret_def)
      with inv Transition show ?thesis by simp
    next
      case 3: (fail nd f)
      from resolves_GetSuffix_props[OF inv 3(4)] 3(3)
      have len: "length (wd f) < length (wd n)" by (auto dest: strict_suffix_length)
      from Suc.IH[OF inv 3(4)] obtain r1 t1 where
        t1: "resolve d (GetSuffix n) t = Some (r1, t1)" "trie_inv wd t1" "memo_ext t t1"
          "r1 = Inr f \<or> r1 = Inl RangeError" "frames wd (GetSuffix n) \<le> d \<longrightarrow> r1 = Inr f" by blast
      show ?thesis
      proof (cases "r1 = Inr f")
        case False
        with t1(4) have r1: "r1 = Inl RangeError" by simp
        with 3(1-3) t1(1) have "resolve (Suc d) (Transition n ch) t = Some (Inl RangeError, t1)"
          by (simp add: resolve_Transition)
        moreover from False t1(5) len have "\<not> frames wd (Transition n ch) \<le> Suc d" by auto
        ultimately show ?thesis using t1(2,3) Transition by simp
      next
        case True
        from t1(3) 3(5) have "resolves t1 (Transition f ch) v" by (rule memo_ext_resolves)
        from Suc.IH[OF t1(2) this] obtain r2 t2 where
          t2: "resolve d (Transition f ch) t1 = Some (r2, t2)" "trie_inv wd t2" "memo_ext t1 t2"
            "r2 = Inr v \<or> r2 = Inl RangeError" "frames wd (Transition f ch) \<le> d \<longrightarrow> r2 = Inr v"
          by blast
        from True 3(1-3) t1(1) t2(1) have "resolve (Suc d) (Transition n ch) t = Some (r2, t2)"
          by (simp add: resolve_Transition)
        moreover from t1(3) t2(3) have "memo_ext t t2" by (rule memo_ext_trans)
        moreover from t2(5) len have "frames wd (Transition n ch) \<le> Suc d \<longrightarrow> r2 = Inr v" by simp
        ultimately show ?thesis using t2(2,4) Transition by simp
      qed
    qed
  next
    case (GetSuffix n)
    note sv = Suc.prems(2)[unfolded GetSuffix]
    from sv show ?thesis
    proof (cases rule: resolves_GetSuffix_cases)
      case (memo nd)
      then have "resolve (Suc d) (GetSuffix n) t = Some (Inr v, t)"
        by (simp add: resolve_GetSuffix ret_def)
      with inv GetSuffix show ?thesis by simp
    next
      case 2: (top nd)
      let ?t' = "t\<lparr>nodes := (nodes t)(n \<mapsto> nd\<lparr>suffix_link := Some ROOT\<rparr>)\<rparr>"
      from 2 have "resolve (Suc d) (GetSuffix n) t = Some (Inr v, ?t')"
        by (simp add: resolve_GetSuffix setSuffix_Some ret_def)
      with memoize_ok[OF inv 2(2) sv] 2(1) GetSuffix show ?thesis by simp
    next
      case 3: (deep nd ps)
      let ?p = "parent nd"
      from inv 3(1) have pn: "nodes t ?p \<noteq> None"
        using resolves_node[OF 3(4)] by simp
      have nroot: "n \<noteq> ROOT"
      proof
        assume "n = ROOT"
        with inv 3(1,2) show False by (auto elim!: trie_inv_rootD)
      qed
      from label_nonempty(2)[OF inv 3(1) nroot] have ln: "length (wd n) = Suc (length (wd ?p))" .
      from pn obtain pd where pd: "nodes t ?p = Some pd" by auto
      from label_nonempty(1)[OF inv pd 3(3)] have lp: "0 < length (wd ?p)" .
      from resolves_GetSuffix_props[OF inv 3(4)] 3(3)
      have len: "length (wd ps) < length (wd ?p)" by (auto dest: strict_suffix_length)
      from Suc.IH[OF inv 3(4)] obtain r1 t1 where
        t1: "resolve d (GetSuffix ?p) t = Some (r1, t1)" "trie_inv wd t1" "memo_ext t t1"
          "r1 = Inr ps \<or> r1 = Inl RangeError" "frames wd (GetSuffix ?p) \<le> d \<longrightarrow> r1 = Inr ps"
        by blast
      show ?thesis
      proof (cases "r1 = Inr ps")
        case False
        with t1(4) have r1: "r1 = Inl RangeError" by simp
        with 3(1-3) t1(1) have "resolve (Suc d) (GetSuffix n) t = Some (Inl RangeError, t1)"
          by (simp add: resolve_GetSuffix)
        moreover from False t1(5) ln lp have "\<not> frames wd (GetSuffix n) \<le> Suc d" by auto
        ultimately show ?thesis using t1(2,3) GetSuffix by simp
      next
        case True
        from t1(3) 3(1) obtain nd1 where nd1: "nodes t1 n = Some nd1" "char nd1 = char nd"
          by (rule memo_ext_nodesD)
        from t1(3) 3(5) have "resolves t1 (Transition ps (char nd)) v" by (rule memo_ext_resolves)
        from Suc.IH[OF t1(2) this] obtain r2 t2 where
          t2: "resolve d (Transition ps (char nd)) t1 = Some (r2, t2)" "trie_inv wd t2"
            "memo_ext t1 t2" "r2 = Inr v \<or> r2 = Inl RangeError"
            "frames wd (Transition ps (char nd)) \<le> d \<longrightarrow> r2 = Inr v"
          by blast
        from t1(3) t2(3) have tt2: "memo_ext t t2" by (rule memo_ext_trans)
        show ?thesis
        proof (cases "r2 = Inr v")
          case False
          with t2(4) have r2: "r2 = Inl RangeError" by simp
          with True 3(1-3) t1(1) nd1 t2(1)
          have "resolve (Suc d) (GetSuffix n) t = Some (Inl RangeError, t2)"
            by (simp add: resolve_GetSuffix)
          moreover from False t2(5) ln len have "\<not> frames wd (GetSuffix n) \<le> Suc d" by auto
          ultimately show ?thesis using t2(2) tt2 GetSuffix by simp
        next
          case r2: True
          from tt2 3(1) obtain nd2 where nd2: "nodes t2 n = Some nd2"
            by (rule memo_ext_nodesD)
          let ?t' = "t2\<lparr>nodes := (nodes t2)(n \<mapsto> nd2\<lparr>suffix_link := Some v\<rparr>)\<rparr>"
          from tt2 sv have tv: "resolves t2 (GetSuffix n) v" by (rule memo_ext_resolves)
          from True r2 3(1-3) t1(1) nd1 t2(1) nd2
          have "resolve (Suc d) (GetSuffix n) t = Some (Inr v, ?t')"
            by (simp add: resolve_GetSuffix setSuffix_Some ret_def)
          moreover from memoize_ok[OF t2(2) nd2 tv] have "trie_inv wd ?t'" "memo_ext t2 ?t'" .
          moreover from tt2 \<open>memo_ext t2 ?t'\<close> have "memo_ext t ?t'" by (rule memo_ext_trans)
          ultimately show ?thesis using GetSuffix by simp
        qed
      qed
    qed
  qed
qed

text \<open>Whatever a call does, it leaves a state that satisfies the invariant, with more memoized.\<close>

lemma resolve_ext:
  assumes inv: "trie_inv wd s" and run: "resolve d c s = Some (r, s1)"
  shows "trie_inv wd s1 \<and> memo_ext s s1"
proof (cases "nodes s (call_node c)")
  case None
  have "resolve d c s = Some (Inl RangeError, s) \<or> resolve d c s = Some (Inl TypeError, s)"
  proof (cases d)
    case 0
    then show ?thesis by (simp add: resolve_0)
  next
    case (Suc e)
    with None show ?thesis
      by (cases c) (simp_all add: resolve_Transition resolve_GetSuffix raise_def)
  qed
  with run inv show ?thesis by auto
next
  case (Some nd)
  with resolves_total[OF inv, of c] obtain v where "resolves s c v" by auto
  from resolve_runs[OF inv this, of d] run show ?thesis by auto
qed

text \<open>A call of \<^verbatim>\<open>_getSuffix\<close> that has returned has left its value in the memo.\<close>

lemma getSuffix_memoizes:
  assumes "resolve d (GetSuffix n) s = Some (Inr v, s1)"
  shows "\<exists>nd1. nodes s1 n = Some nd1 \<and> suffix_link nd1 = Some v"
proof (cases d)
  case 0
  with assms show ?thesis by (simp add: resolve_0)
next
  case (Suc e)
  from assms[unfolded Suc resolve_GetSuffix] show ?thesis
    by (auto simp: bnd_eq_Some getNode_def setSuffix_def setNode_def
        split: option.splits if_splits)
qed

section \<open>\<^verbatim>\<open>_getWord\<close>\<close>

lemma getWord_unfold:
  "getWord (Suc d) node s =
     bnd (getNode node s) (\<lambda>nd s.
       case word nd of
         Some w \<Rightarrow> ret w s
       | None \<Rightarrow>
           bnd (getWord d (parent nd) s) (\<lambda>pw s.
           bnd (getNode node s) (\<lambda>nd' s.
           bnd (setWord node (pw @ char nd') s) (\<lambda>_ s. ret (pw @ char nd') s))))"
  by (simp add: getWord_simps)

lemma getWord_0: "getWord 0 n s = Some (Inl RangeError, s)"
  by (simp add: getWord_simps raise_def)

lemma word_memo_ok:
  assumes inv: "trie_inv wd t" and n: "nodes t n = Some nd"
  defines "t' \<equiv> t\<lparr>nodes := (nodes t)(n \<mapsto> nd\<lparr>word := Some (wd n)\<rparr>)\<rparr>"
  shows "trie_inv wd t'" and "memo_ext t t'"
proof -
  have fg: "forget t' = forget t"
    unfolding t'_def using n by (rule forget_memo_update)
  have dom: "\<And>y. nodes t' y = None \<longleftrightarrow> nodes t y = None"
    using fg by (rule forget_dom)
  have "root_ok wd t'"
    using inv n unfolding trie_inv_def root_ok_def t'_def by auto
  moreover have "words_ok wd t'"
    using inv n unfolding trie_inv_def words_ok_def t'_def by (auto split: if_splits)
  moreover have "links_ok wd t'"
    unfolding links_ok_def
  proof (intro allI impI)
    fix k kd y
    assume k: "nodes t' k = Some kd" "suffix_link kd = Some y" "k \<noteq> ROOT"
    then have "\<exists>kd'. nodes t k = Some kd' \<and> suffix_link kd' = Some y"
      using n by (cases "k = n") (auto simp: t'_def)
    then obtain kd' where "nodes t k = Some kd'" "suffix_link kd' = Some y" by blast
    from trie_inv_linkD[OF inv this k(3)] dom
    show "nodes t' y \<noteq> None \<and> strict_suffix (wd y) (wd k)" by simp
  qed
  ultimately show "trie_inv wd t'"
    using trie_inv_forget_parts[OF fg inv] by (simp add: trie_inv_def)
  show "memo_ext t t'"
    unfolding memo_ext_def
  proof (intro conjI allI impI)
    show "forget t' = forget t" by (rule fg)
  next
    fix k kd y
    assume "nodes t k = Some kd" "suffix_link kd = Some y"
    with n show "\<exists>nd'. nodes t' k = Some nd' \<and> suffix_link nd' = Some y"
      by (cases "k = n") (auto simp: t'_def)
  next
    fix c u
    assume "resolves t c u"
    then show "resolves t' c u"
      unfolding t'_def by (rule resolves_word_update[OF n])
  next
    fix k kd w
    assume k: "nodes t k = Some kd" "word kd = Some w"
    with inv have "w = wd k" unfolding trie_inv_def words_ok_def by blast
    with k show "\<exists>nd'. nodes t' k = Some nd' \<and> word nd' = Some w"
      by (cases "k = n") (auto simp: t'_def)
  qed
qed

text \<open>
  \<^verbatim>\<open>_getWord\<close> on a stack of \<open>d\<close> frames ends: it returns the label of the node or throws
  \<^verbatim>\<open>RangeError\<close>, and it returns when the stack has a frame more than the label has letters.
\<close>

lemma getWord_runs:
  "trie_inv wd s \<Longrightarrow> nodes s n \<noteq> None \<Longrightarrow>
   \<exists>r s'. getWord d n s = Some (r, s') \<and> trie_inv wd s' \<and> memo_ext s s'
      \<and> (r = Inr (wd n) \<or> r = Inl RangeError) \<and> (length (wd n) < d \<longrightarrow> r = Inr (wd n))"
proof (induction d arbitrary: n s)
  case 0
  then show ?case by (simp add: getWord_0)
next
  case (Suc d)
  from Suc.prems obtain nd where nd: "nodes s n = Some nd" by auto
  note inv = Suc.prems(1)
  show ?case
  proof (cases "word nd")
    case (Some w)
    with inv nd have "w = wd n" unfolding trie_inv_def words_ok_def by blast
    with Some nd have "getWord (Suc d) n s = Some (Inr (wd n), s)"
      by (simp add: getWord_unfold ret_def)
    with inv show ?thesis by simp
  next
    case None
    with inv nd have n: "n \<noteq> ROOT" by (auto elim!: trie_inv_rootD)
    from inv nd n obtain c pn where c: "char nd = [c]" "nodes s (parent nd) = Some pn"
      "wd n = wd (parent nd) @ [c]" by (auto elim: trie_inv_parentD)
    from c(2) have "nodes s (parent nd) \<noteq> None" by simp
    from Suc.IH[OF inv this] obtain r1 s1 where
      s1: "getWord d (parent nd) s = Some (r1, s1)" "trie_inv wd s1" "memo_ext s s1"
        "r1 = Inr (wd (parent nd)) \<or> r1 = Inl RangeError"
        "length (wd (parent nd)) < d \<longrightarrow> r1 = Inr (wd (parent nd))" by blast
    show ?thesis
    proof (cases "r1 = Inr (wd (parent nd))")
      case False
      with s1(4) have "r1 = Inl RangeError" by simp
      with nd None s1(1) have "getWord (Suc d) n s = Some (Inl RangeError, s1)"
        by (simp add: getWord_unfold)
      moreover from False s1(5) c(3) have "\<not> length (wd n) < Suc d" by auto
      ultimately show ?thesis using s1(2,3) by simp
    next
      case True
      from s1(3) nd obtain nd1 where nd1: "nodes s1 n = Some nd1" "char nd1 = char nd"
        by (rule memo_ext_nodesD)
      let ?s' = "s1\<lparr>nodes := (nodes s1)(n \<mapsto> nd1\<lparr>word := Some (wd n)\<rparr>)\<rparr>"
      from True nd None s1(1) nd1 c have "getWord (Suc d) n s = Some (Inr (wd n), ?s')"
        by (simp add: getWord_unfold setWord_Some ret_def)
      moreover from word_memo_ok[OF s1(2) nd1(1)] have "trie_inv wd ?s'" "memo_ext s1 ?s'" .
      moreover from s1(3) \<open>memo_ext s1 ?s'\<close> have "memo_ext s ?s'" by (rule memo_ext_trans)
      ultimately show ?thesis by blast
    qed
  qed
qed

lemma getWord_ext:
  assumes inv: "trie_inv wd s" and run: "getWord d n s = Some (r, s1)"
  shows "trie_inv wd s1 \<and> memo_ext s s1"
proof (cases "nodes s n")
  case None
  have "getWord d n s = Some (Inl RangeError, s) \<or> getWord d n s = Some (Inl TypeError, s)"
  proof (cases d)
    case 0
    then show ?thesis by (simp add: getWord_0)
  next
    case (Suc e)
    with None show ?thesis by (simp add: getWord_unfold raise_def)
  qed
  with run inv show ?thesis by auto
next
  case (Some nd)
  then have "nodes s n \<noteq> None" by simp
  from getWord_runs[OF inv this, of d] run show ?thesis by auto
qed

text \<open>A call of \<^verbatim>\<open>_getWord\<close> that has returned has left its value in the memo.\<close>

lemma getWord_memoizes:
  assumes "getWord d n s = Some (Inr w, s1)"
  shows "\<exists>nd1. nodes s1 n = Some nd1 \<and> word nd1 = Some w"
proof (cases d)
  case 0
  with assms show ?thesis by (simp add: getWord_0)
next
  case (Suc e)
  from assms[unfolded Suc getWord_unfold] show ?thesis
    by (auto simp: bnd_eq_Some getNode_def setWord_def setNode_def
        split: option.splits if_splits)
qed

text \<open>
  With no word memoized but the root's, \<^verbatim>\<open>_getWord\<close> climbs to the root: on a stack with
  no more frames than the label has letters it throws, and has written nothing.
\<close>

lemma getWord_overflow:
  "trie_inv wd s \<Longrightarrow> unmemo s \<Longrightarrow> nodes s n \<noteq> None \<Longrightarrow> d \<le> length (wd n) \<Longrightarrow>
   getWord d n s = Some (Inl RangeError, s)"
proof (induction d arbitrary: n)
  case 0
  show ?case by (rule getWord_0)
next
  case (Suc d)
  note inv = Suc.prems(1)
  from Suc.prems(3) obtain nd where nd: "nodes s n = Some nd" by auto
  from inv have "wd ROOT = []" by (rule trie_inv_rootD)
  with Suc.prems(4) have n: "n \<noteq> ROOT" by auto
  with Suc.prems(2) nd have None: "word nd = None" unfolding unmemo_def by blast
  from inv nd n obtain c pn where c: "nodes s (parent nd) = Some pn"
    "wd n = wd (parent nd) @ [c]" by (auto elim: trie_inv_parentD)
  from c(2) Suc.prems(4) have "d \<le> length (wd (parent nd))" by simp
  with Suc.IH[OF inv Suc.prems(2), of "parent nd"] c(1)
  have "getWord d (parent nd) s = Some (Inl RangeError, s)" by simp
  with nd None show ?case by (simp add: getWord_unfold)
qed

section \<open>Calls whose value the memoization cannot change\<close>

lemma sim_refl [simp]: "sim s s"
  by (simp add: sim_def)

lemma memo_ext_sim: "memo_ext s t \<Longrightarrow> sim s t"
  by (simp add: memo_ext_def sim_def)

lemma sim_trans: "sim s t \<Longrightarrow> sim t u \<Longrightarrow> sim s u"
  unfolding sim_def by metis

lemma sim_nodesD:
  assumes "sim s t" "nodes s k = Some nd"
  obtains nd' where "nodes t k = Some nd'" "char nd' = char nd" "children nd' = children nd"
    "end_flag nd' = end_flag nd" "parent nd' = parent nd"
proof -
  from assms(1) have "forget s = forget t" by (simp add: sim_def)
  from this assms(2) obtain nd' where "nodes t k = Some nd'" "char nd' = char nd"
    "children nd' = children nd" "end_flag nd' = end_flag nd" "parent nd' = parent nd"
    by (rule forget_nodesD)
  then show thesis by (rule that)
qed

lemma goodD:
  assumes "good wd s m v ok" "trie_inv wd t" "sim s t"
  obtains r t' where "m t = Some (r, t')" "trie_inv wd t'" "memo_ext t t'"
    "r = Inr v \<or> r = Inl RangeError" "ok \<longrightarrow> r = Inr v"
  using assms unfolding good_def by blast

lemma good_ret: "good wd s (ret v) v ok"
  unfolding good_def ret_def by (blast intro: memo_ext_refl)

lemma good_raise: "good wd s (raise RangeError) v False"
  unfolding good_def raise_def by (blast intro: memo_ext_refl)

lemma good_weaken: "good wd s m v ok \<Longrightarrow> (ok' \<Longrightarrow> ok) \<Longrightarrow> good wd s m v ok'"
  unfolding good_def by blast

lemma good_bnd:
  assumes "good wd s m v ok1" "good wd s (f v) u ok2"
  shows "good wd s (\<lambda>t. bnd (m t) f) u (ok1 \<and> ok2)"
  unfolding good_def
proof (intro allI impI)
  fix t assume t: "trie_inv wd t" "sim s t"
  from assms(1) t obtain r1 t1 where t1: "m t = Some (r1, t1)" "trie_inv wd t1" "memo_ext t t1"
    "r1 = Inr v \<or> r1 = Inl RangeError" "ok1 \<longrightarrow> r1 = Inr v"
    by (rule goodD)
  show "\<exists>r t'. bnd (m t) f = Some (r, t') \<and> trie_inv wd t' \<and> memo_ext t t'
      \<and> (r = Inr u \<or> r = Inl RangeError) \<and> (ok1 \<and> ok2 \<longrightarrow> r = Inr u)"
  proof (cases "r1 = Inr v")
    case False
    with t1(4) have "r1 = Inl RangeError" by simp
    with t1(1) have "bnd (m t) f = Some (Inl RangeError, t1)" by simp
    with t1(2,3,5) False show ?thesis by auto
  next
    case True
    from t(2) t1(3) have "sim s t1" by (blast intro: sim_trans memo_ext_sim)
    with assms(2) t1(2) obtain r2 t2 where t2: "f v t1 = Some (r2, t2)" "trie_inv wd t2"
      "memo_ext t1 t2" "r2 = Inr u \<or> r2 = Inl RangeError" "ok2 \<longrightarrow> r2 = Inr u"
      by (rule goodD)
    from t1(3) t2(3) have "memo_ext t t2" by (rule memo_ext_trans)
    with True t1(1) t2(1,2,4,5) show ?thesis by auto
  qed
qed

lemma good_getNode_bnd:
  assumes "nodes s n = Some nd"
    and "\<And>nd'. char nd' = char nd \<Longrightarrow> children nd' = children nd \<Longrightarrow> end_flag nd' = end_flag nd
           \<Longrightarrow> parent nd' = parent nd \<Longrightarrow> good wd s (f nd') u ok"
  shows "good wd s (\<lambda>t. bnd (getNode n t) f) u ok"
  unfolding good_def
proof (intro allI impI)
  fix t assume t: "trie_inv wd t" "sim s t"
  from t(2) assms(1) obtain nd' where nd': "nodes t n = Some nd'" "char nd' = char nd"
    "children nd' = children nd" "end_flag nd' = end_flag nd" "parent nd' = parent nd"
    by (rule sim_nodesD)
  from assms(2)[OF nd'(2-5)] t obtain r t' where "f nd' t = Some (r, t')" "trie_inv wd t'"
    "memo_ext t t'" "r = Inr u \<or> r = Inl RangeError" "ok \<longrightarrow> r = Inr u"
    by (rule goodD)
  with nd'(1) show "\<exists>r t'. bnd (getNode n t) f = Some (r, t') \<and> trie_inv wd t' \<and> memo_ext t t'
      \<and> (r = Inr u \<or> r = Inl RangeError) \<and> (ok \<longrightarrow> r = Inr u)"
    by auto
qed

lemma good_resolve:
  assumes "resolves s c v"
  shows "good wd s (resolve d c) v (frames wd c \<le> d)"
  unfolding good_def
proof (intro allI impI)
  fix t assume t: "trie_inv wd t" "sim s t"
  from t(2) assms have "resolves t c v" by (simp add: sim_def)
  from resolve_runs[OF t(1) this]
  show "\<exists>r t'. resolve d c t = Some (r, t') \<and> trie_inv wd t' \<and> memo_ext t t'
      \<and> (r = Inr v \<or> r = Inl RangeError) \<and> (frames wd c \<le> d \<longrightarrow> r = Inr v)" .
qed

lemma good_getWord:
  assumes "nodes s n \<noteq> None"
  shows "good wd s (getWord d n) (wd n) (length (wd n) < d)"
  unfolding good_def
proof (intro allI impI)
  fix t assume t: "trie_inv wd t" "sim s t"
  from t(2) have "forget t = forget s" by (simp add: sim_def)
  from forget_dom[OF this] assms have "nodes t n \<noteq> None" by simp
  with t(1) show "\<exists>r t'. getWord d n t = Some (r, t') \<and> trie_inv wd t' \<and> memo_ext t t'
      \<and> (r = Inr (wd n) \<or> r = Inl RangeError) \<and> (length (wd n) < d \<longrightarrow> r = Inr (wd n))"
    by (rule getWord_runs)
qed

lemma good_getSuffix:
  "resolves s (GetSuffix n) v \<Longrightarrow> good wd s (getSuffix d n) v (max 1 (length (wd n)) \<le> d)"
  using good_resolve[of s "GetSuffix n" v wd d] by (simp add: getSuffix_def[abs_def])

lemma good_transition:
  "resolves s (Transition n ch) v \<Longrightarrow> good wd s (transition d n ch) v (length (wd n) + 1 \<le> d)"
  using good_resolve[of s "Transition n ch" v wd d] by (simp add: transition_def[abs_def])

lemma good_bnd_ok:
  assumes "good wd s m v ok1" "good wd s (f v) u ok2" "ok \<Longrightarrow> ok1" "ok \<Longrightarrow> ok2"
  shows "good wd s (\<lambda>t. bnd (m t) f) u ok"
proof -
  from assms(1,2) have "good wd s (\<lambda>t. bnd (m t) f) u (ok1 \<and> ok2)" by (rule good_bnd)
  then show ?thesis by (rule good_weaken) (use assms(3,4) in blast)
qed

section \<open>\<^verbatim>\<open>_getWords\<close> and \<^verbatim>\<open>query\<close>\<close>

lemma dict_inv_endD:
  "dict_inv wd D s \<Longrightarrow> nodes s k = Some nd \<Longrightarrow> end_flag nd \<longleftrightarrow> wd k \<in> D"
  unfolding dict_inv_def by blast

lemma getWords_loop_good:
  assumes inv: "trie_inv wd s" and dinv: "dict_inv wd D s"
  shows "nodes s cur \<noteq> None \<Longrightarrow>
    \<exists>ws. good wd s (getWords_loop d cur result) (result @ ws) (length (wd cur) \<le> d)
        \<and> (\<forall>w\<in>set ws. w \<in> D \<and> suffix w (wd cur))"
proof (induction "length (wd cur)" arbitrary: cur result rule: less_induct)
  case less
  show ?case
  proof (cases "cur = ROOT")
    case True
    then have "getWords_loop d cur result = ret result"
      by (intro HOL.ext, subst getWords_loop.simps) simp
    then have "good wd s (getWords_loop d cur result) (result @ []) (length (wd cur) \<le> d)"
      by (simp add: good_ret)
    then show ?thesis by (intro exI[of _ "[]"]) simp
  next
    case False
    from less.prems obtain cd where cd: "nodes s cur = Some cd" by auto
    from label_nonempty(1)[OF inv cd False] have pos: "0 < length (wd cur)" .
    from resolves_total[OF inv, of "GetSuffix cur"] less.prems
    obtain f where f: "resolves s (GetSuffix cur) f" by auto
    from resolves_GetSuffix_props[OF inv f] False
    obtain fd where fd: "nodes s f = Some fd" and ss: "strict_suffix (wd f) (wd cur)" by auto
    from ss have len: "length (wd f) < length (wd cur)" by (rule strict_suffix_length)
    from ss have sf: "suffix (wd f) (wd cur)" by (simp add: strict_suffix_def)
    have eq: "getWords_loop d cur result = (\<lambda>t.
        bnd (getSuffix d cur t) (\<lambda>cur t.
        bnd (getNode cur t) (\<lambda>nd t.
          if end_flag nd
          then bnd (getWord d cur t) (\<lambda>w t. getWords_loop d cur (result @ [w]) t)
          else getWords_loop d cur result t)))"
      using False by (intro HOL.ext, subst getWords_loop.simps) simp
    note gs = good_getSuffix[OF f, of wd d]
    show ?thesis
    proof (cases "end_flag fd")
      case True
      with dinv fd have inD: "wd f \<in> D" by (simp add: dict_inv_endD)
      from less.hyps[OF len, of "result @ [wd f]"] fd
      obtain ws where ws: "good wd s (getWords_loop d f (result @ [wd f])) ((result @ [wd f]) @ ws)
            (length (wd f) \<le> d)"
        "\<forall>w\<in>set ws. w \<in> D \<and> suffix w (wd f)" by auto
      have gw: "good wd s (getWord d f) (wd f) (length (wd f) < d)"
        using fd by (intro good_getWord) simp
      have "good wd s (\<lambda>t. bnd (getWord d f t) (\<lambda>w t. getWords_loop d f (result @ [w]) t))
          ((result @ [wd f]) @ ws) (length (wd f) < d)"
        using gw ws(1) by (rule good_bnd_ok) simp_all
      then have "good wd s (\<lambda>t. bnd (getNode f t) (\<lambda>nd t.
          if end_flag nd
          then bnd (getWord d f t) (\<lambda>w t. getWords_loop d f (result @ [w]) t)
          else getWords_loop d f result t)) ((result @ [wd f]) @ ws) (length (wd f) < d)"
        using True by (intro good_getNode_bnd[OF fd]) simp
      with gs have "good wd s (getWords_loop d cur result) ((result @ [wd f]) @ ws)
          (length (wd cur) \<le> d)"
        unfolding eq by (rule good_bnd_ok) (use pos len in simp_all)
      then have "good wd s (getWords_loop d cur result) (result @ (wd f # ws)) (length (wd cur) \<le> d)"
        by simp
      moreover from ws(2) inD sf have "\<forall>w\<in>set (wd f # ws). w \<in> D \<and> suffix w (wd cur)"
        by (auto intro: suffix_order.trans)
      ultimately show ?thesis by blast
    next
      case nend: False
      from less.hyps[OF len, of result] fd
      obtain ws where ws: "good wd s (getWords_loop d f result) (result @ ws) (length (wd f) \<le> d)"
        "\<forall>w\<in>set ws. w \<in> D \<and> suffix w (wd f)" by auto
      have "good wd s (\<lambda>t. bnd (getNode f t) (\<lambda>nd t.
          if end_flag nd
          then bnd (getWord d f t) (\<lambda>w t. getWords_loop d f (result @ [w]) t)
          else getWords_loop d f result t)) (result @ ws) (length (wd f) \<le> d)"
        using nend ws(1) by (intro good_getNode_bnd[OF fd]) simp
      with gs have "good wd s (getWords_loop d cur result) (result @ ws) (length (wd cur) \<le> d)"
        unfolding eq by (rule good_bnd_ok) (use pos len in simp_all)
      moreover from ws(2) sf have "\<forall>w\<in>set ws. w \<in> D \<and> suffix w (wd cur)"
        by (auto intro: suffix_order.trans)
      ultimately show ?thesis by blast
    qed
  qed
qed

lemma getWords_0: "getWords 0 n = raise RangeError"
  by (intro HOL.ext) (simp add: getWords_simps)

lemma getWords_Suc:
  "getWords (Suc d) n = (\<lambda>s.
     bnd (getNode n s) (\<lambda>nd s.
     bnd (if end_flag nd then bnd (getWord d n s) (\<lambda>w s. ret [w] s) else ret [] s)
       (\<lambda>result s. getWords_loop d n result s)))"
  by (intro HOL.ext) (simp add: getWords_simps)

lemma getWords_good:
  assumes inv: "trie_inv wd s" and dinv: "dict_inv wd D s" and n: "nodes s n = Some nd"
  shows "\<exists>ws. good wd s (getWords d n) ws (length (wd n) + 2 \<le> d)
      \<and> (\<forall>w\<in>set ws. w \<in> D \<and> suffix w (wd n))"
proof (cases d)
  case 0
  have "good wd s (raise RangeError) ([] :: string list) (length (wd n) + 2 \<le> d)"
    by (rule good_weaken[OF good_raise]) (simp add: 0)
  with 0 show ?thesis by (intro exI[of _ "[]"]) (simp add: getWords_0)
next
  case (Suc e)
  show ?thesis
  proof (cases "end_flag nd")
    case True
    with dinv n have inD: "wd n \<in> D" by (simp add: dict_inv_endD)
    from getWords_loop_good[OF inv dinv, of n e "[wd n]"] n
    obtain ws where ws: "good wd s (getWords_loop e n [wd n]) ([wd n] @ ws) (length (wd n) \<le> e)"
      "\<forall>w\<in>set ws. w \<in> D \<and> suffix w (wd n)" by auto
    have gw: "good wd s (getWord e n) (wd n) (length (wd n) < e)"
      using n by (intro good_getWord) simp
    have "good wd s (ret [wd n]) [wd n] True" by (rule good_ret)
    with gw have "good wd s (\<lambda>t. bnd (getWord e n t) (\<lambda>w t. ret [w] t)) [wd n] (length (wd n) < e)"
      by (rule good_bnd_ok) simp_all
    then have "good wd s (\<lambda>t. bnd (bnd (getWord e n t) (\<lambda>w t. ret [w] t))
        (\<lambda>result t. getWords_loop e n result t)) ([wd n] @ ws) (length (wd n) + 2 \<le> d)"
      using ws(1) by (rule good_bnd_ok) (simp_all add: Suc)
    then have "good wd s (getWords d n) (wd n # ws) (length (wd n) + 2 \<le> d)"
      unfolding Suc getWords_Suc using True by (intro good_getNode_bnd[OF n]) simp
    with ws(2) inD show ?thesis by (intro exI[of _ "wd n # ws"]) simp
  next
    case False
    from getWords_loop_good[OF inv dinv, of n e "[]"] n
    obtain ws where ws: "good wd s (getWords_loop e n []) ([] @ ws) (length (wd n) \<le> e)"
      "\<forall>w\<in>set ws. w \<in> D \<and> suffix w (wd n)" by auto
    have "good wd s (ret []) ([] :: string list) True" by (rule good_ret)
    then have "good wd s (\<lambda>t. bnd (ret [] t) (\<lambda>result t. getWords_loop e n result t)) ([] @ ws)
        (length (wd n) + 2 \<le> d)"
      using ws(1) by (rule good_bnd_ok) (simp_all add: Suc)
    then have "good wd s (getWords d n) ws (length (wd n) + 2 \<le> d)"
      unfolding Suc getWords_Suc using False by (intro good_getNode_bnd[OF n]) simp
    with ws(2) show ?thesis by blast
  qed
qed

lemma fold_insert_set: "fold insert xs A = set xs \<union> A"
  by (induction xs arbitrary: A) auto

lemma sublist_of_suffix:
  assumes "suffix v (u @ [c])" "sublist w (v @ cs)"
  shows "sublist w (u @ c # cs)"
proof -
  from assms(1) obtain p where "u @ [c] = p @ v" by (auto simp: suffix_def)
  then have "u @ c # cs = p @ (v @ cs)" by (metis append.assoc append_Cons append_Nil)
  with assms(2) show ?thesis by (metis sublist_appendI sublist_order.order.trans suffix_imp_sublist suffixI)
qed

text \<open>
  The scan on a stack of \<open>d\<close> frames: it ends, returns a set or throws \<^verbatim>\<open>RangeError\<close>, and
  returns when the stack has two frames more than the longest label has letters.
\<close>

lemma query_loop_good:
  fixes d :: nat
  assumes inv: "trie_inv wd s" and dinv: "dict_inv wd D s"
  defines "ok \<equiv> (\<forall>k. nodes s k \<noteq> None \<longrightarrow> length (wd k) + 2 \<le> d)"
  shows "nodes s cur \<noteq> None \<Longrightarrow>
    \<exists>R. good wd s (query_loop d h cur results) R ok
       \<and> results \<subseteq> R \<and> R \<subseteq> results \<union> {w \<in> D. sublist w (wd cur @ h)}"
proof (induction h arbitrary: cur results)
  case Nil
  have "query_loop d [] cur results = ret results"
    by (intro HOL.ext) simp
  then have "good wd s (query_loop d [] cur results) results ok"
    by (simp add: good_ret)
  then show ?case by blast
next
  case (Cons c cs)
  from resolves_total[OF inv, of "Transition cur [c]"] Cons.prems
  obtain v where v: "resolves s (Transition cur [c]) v" by auto
  from resolves_Transition_props[OF inv v]
  obtain vd where vd: "nodes s v = Some vd" and sv: "suffix (wd v) (wd cur @ [c])" by auto
  from Cons.prems have lc: "ok \<Longrightarrow> length (wd cur) + 1 \<le> d" by (auto simp: ok_def)
  from vd have lv: "ok \<Longrightarrow> length (wd v) + 2 \<le> d" by (simp add: ok_def)
  note gt = good_transition[OF v, of wd d]
  have eq: "query_loop d (c # cs) cur results = (\<lambda>t.
      bnd (transition d cur [c] t) (\<lambda>cur t.
      bnd (getNode cur t) (\<lambda>nd t.
        if end_flag nd
        then bnd (getWords d cur t) (\<lambda>words t. query_loop d cs cur (fold insert words results) t)
        else query_loop d cs cur results t)))"
    by (intro HOL.ext) simp
  show ?case
  proof (cases "end_flag vd")
    case True
    from getWords_good[OF inv dinv vd, of d]
    obtain ws where ws: "good wd s (getWords d v) ws (length (wd v) + 2 \<le> d)"
      "\<forall>w\<in>set ws. w \<in> D \<and> suffix w (wd v)"
      by blast
    from Cons.IH[of v "fold insert ws results"] vd
    obtain R where R: "good wd s (query_loop d cs v (fold insert ws results)) R ok"
      "fold insert ws results \<subseteq> R"
      "R \<subseteq> fold insert ws results \<union> {w \<in> D. sublist w (wd v @ cs)}" by auto
    have "good wd s (\<lambda>t. bnd (getWords d v t)
        (\<lambda>words t. query_loop d cs v (fold insert words results) t)) R ok"
      using ws(1) R(1) by (rule good_bnd_ok) (use lv in simp_all)
    then have "good wd s (\<lambda>t. bnd (getNode v t) (\<lambda>nd t.
        if end_flag nd
        then bnd (getWords d v t) (\<lambda>words t. query_loop d cs v (fold insert words results) t)
        else query_loop d cs v results t)) R ok"
      using True by (intro good_getNode_bnd[OF vd]) simp
    with gt have "good wd s (query_loop d (c # cs) cur results) R ok"
      unfolding eq by (rule good_bnd_ok) (use lc in simp_all)
    moreover from R(2) have "results \<subseteq> R" by (simp add: fold_insert_set)
    moreover have "R \<subseteq> results \<union> {w \<in> D. sublist w (wd cur @ c # cs)}"
    proof
      fix w assume "w \<in> R"
      with R(3) consider "w \<in> results" | "w \<in> set ws" | "w \<in> D" "sublist w (wd v @ cs)"
        by (auto simp: fold_insert_set)
      then show "w \<in> results \<union> {w \<in> D. sublist w (wd cur @ c # cs)}"
      proof cases
        case 1
        then show ?thesis by simp
      next
        case 2
        with ws(2) have "w \<in> D" "suffix w (wd v)" by auto
        then have "sublist w (wd v @ cs)" by (metis sublist_appendI suffix_imp_sublist sublist_order.order.trans sublist_append_rightI)
        from sublist_of_suffix[OF sv this] \<open>w \<in> D\<close> show ?thesis by simp
      next
        case 3
        from sublist_of_suffix[OF sv 3(2)] 3(1) show ?thesis by simp
      qed
    qed
    ultimately show ?thesis by blast
  next
    case False
    from Cons.IH[of v results] vd
    obtain R where R: "good wd s (query_loop d cs v results) R ok" "results \<subseteq> R"
      "R \<subseteq> results \<union> {w \<in> D. sublist w (wd v @ cs)}" by auto
    have "good wd s (\<lambda>t. bnd (getNode v t) (\<lambda>nd t.
        if end_flag nd
        then bnd (getWords d v t) (\<lambda>words t. query_loop d cs v (fold insert words results) t)
        else query_loop d cs v results t)) R ok"
      using False R(1) by (intro good_getNode_bnd[OF vd]) simp
    with gt have "good wd s (query_loop d (c # cs) cur results) R ok"
      unfolding eq by (rule good_bnd_ok) (use lc in simp_all)
    moreover from R(3) sublist_of_suffix[OF sv]
    have "R \<subseteq> results \<union> {w \<in> D. sublist w (wd cur @ c # cs)}"
      by blast
    ultimately show ?thesis using R(2) by blast
  qed
qed

lemma query_good:
  assumes inv: "trie_inv wd s" and dinv: "dict_inv wd D s"
  shows "\<exists>R. good wd s (query d h) R (\<forall>k. nodes s k \<noteq> None \<longrightarrow> length (wd k) + 2 \<le> d)
      \<and> R \<subseteq> {w \<in> D. sublist w h}"
proof -
  from inv obtain r where "nodes s ROOT = Some r" "wd ROOT = []" by (rule trie_inv_rootD)
  with query_loop_good[OF inv dinv, of ROOT d h "{}"] show ?thesis
    by (auto simp: query_def[abs_def])
qed

section \<open>A call that has returned returns again\<close>

lemma replaysD:
  assumes "replays wd m m'" "trie_inv wd s" "m s = Some (r, s1)"
  shows "trie_inv wd s1" and "memo_ext s s1"
    and "\<And>v t. r = Inr v \<Longrightarrow> memo_ext s1 t \<Longrightarrow> m' t = Some (Inr v, t)"
  using assms unfolding replays_def by blast+

lemma replays_ret: "replays wd (ret v) (ret v)"
  unfolding replays_def by (auto simp: ret_def)

lemma replays_raise: "replays wd (raise e) m'"
  unfolding replays_def by (auto simp: raise_def)

lemma replays_bnd:
  assumes m: "replays wd m m'" and f: "\<And>v. replays wd (f v) (f' v)"
  shows "replays wd (\<lambda>s. bnd (m s) f) (\<lambda>s. bnd (m' s) f')"
  unfolding replays_def
proof (intro allI impI)
  fix s r s1
  assume inv: "trie_inv wd s" and run: "bnd (m s) f = Some (r, s1)"
  from run consider e where "m s = Some (Inl e, s1)" "r = Inl e"
    | v sa where "m s = Some (Inr v, sa)" "f v sa = Some (r, s1)"
    by (auto simp: bnd_eq_Some)
  then show "trie_inv wd s1 \<and> memo_ext s s1
      \<and> (\<forall>v t. r = Inr v \<longrightarrow> memo_ext s1 t \<longrightarrow> bnd (m' t) f' = Some (Inr v, t))"
  proof cases
    case 1
    from replaysD(1,2)[OF m inv 1(1)] 1(2) show ?thesis by simp
  next
    case 2
    note a = replaysD[OF m inv 2(1)]
    note b = replaysD[OF f a(1) 2(2)]
    from a(2) b(2) have "memo_ext s s1" by (rule memo_ext_trans)
    moreover have "bnd (m' t) f' = Some (Inr u, t)" if "r = Inr u" "memo_ext s1 t" for u t
    proof -
      from b(2) that(2) have "memo_ext sa t" by (rule memo_ext_trans)
      with a(3) have "m' t = Some (Inr v, t)" by simp
      moreover from b(3)[OF that] have "f' v t = Some (Inr u, t)" .
      ultimately show ?thesis by simp
    qed
    ultimately show ?thesis using b(1) by blast
  qed
qed

lemma replays_getNode_bnd:
  assumes f: "\<And>nd nd'. char nd' = char nd \<Longrightarrow> children nd' = children nd
     \<Longrightarrow> end_flag nd' = end_flag nd \<Longrightarrow> parent nd' = parent nd \<Longrightarrow> replays wd (f nd) (f' nd')"
  shows "replays wd (\<lambda>s. bnd (getNode n s) f) (\<lambda>s. bnd (getNode n s) f')"
  unfolding replays_def
proof (intro allI impI)
  fix s r s1
  assume inv: "trie_inv wd s" and run: "bnd (getNode n s) f = Some (r, s1)"
  show "trie_inv wd s1 \<and> memo_ext s s1
      \<and> (\<forall>v t. r = Inr v \<longrightarrow> memo_ext s1 t \<longrightarrow> bnd (getNode n t) f' = Some (Inr v, t))"
  proof (cases "nodes s n")
    case None
    with run inv show ?thesis by (auto simp: raise_def)
  next
    case (Some nd)
    with run have run': "f nd s = Some (r, s1)" by simp
    have "trie_inv wd s1" "memo_ext s s1"
      using replaysD(1,2)[OF f inv run', of nd] by simp_all
    moreover have "bnd (getNode n t) f' = Some (Inr u, t)" if "r = Inr u" "memo_ext s1 t" for u t
    proof -
      from \<open>memo_ext s s1\<close> that(2) have "memo_ext s t" by (rule memo_ext_trans)
      from this Some obtain nd' where nd': "nodes t n = Some nd'" "char nd' = char nd"
        "children nd' = children nd" "end_flag nd' = end_flag nd" "parent nd' = parent nd"
        by (rule memo_ext_nodesD)
      from replaysD(3)[OF f[OF nd'(2-5)] inv run' that] nd'(1) show ?thesis by simp
    qed
    ultimately show ?thesis by blast
  qed
qed

lemma replays_getSuffix:
  assumes "d \<le> d'"
  shows "replays wd (resolve d (GetSuffix n)) (resolve d' (GetSuffix n))"
  unfolding replays_def
proof (intro allI impI conjI)
  fix s r s1
  assume inv: "trie_inv wd s" and run: "resolve d (GetSuffix n) s = Some (r, s1)"
  from resolve_ext[OF inv run] show "trie_inv wd s1" "memo_ext s s1" by simp_all
  fix v t
  assume r: "r = Inr v" and t: "memo_ext s1 t"
  have "d \<noteq> 0"
  proof
    assume "d = 0"
    with run r show False by (simp add: resolve_0)
  qed
  with assms obtain e where e: "d' = Suc e" by (cases d') auto
  from getSuffix_memoizes[OF run[unfolded r]] obtain nd1 where
    "nodes s1 n = Some nd1" "suffix_link nd1 = Some v" by blast
  from memo_ext_memo[OF t this] obtain nd' where "nodes t n = Some nd'" "suffix_link nd' = Some v"
    by blast
  then show "resolve d' (GetSuffix n) t = Some (Inr v, t)"
    by (simp add: e resolve_GetSuffix ret_def)
qed

lemma replays_resolve:
  "d \<le> d' \<Longrightarrow> replays wd (resolve d c) (resolve d' c)"
proof (induction d arbitrary: c d')
  case 0
  have "resolve 0 c = raise RangeError" by (intro HOL.ext) (simp add: resolve_simps)
  then show ?case by (simp add: replays_raise)
next
  case (Suc d)
  from Suc.prems obtain e where e: "d' = Suc e" "d \<le> e" by (cases d') auto
  show ?case
  proof (cases c)
    case (GetSuffix n)
    with Suc.prems show ?thesis by (simp add: replays_getSuffix)
  next
    case (Transition n ch)
    have eq: "resolve (Suc k) (Transition n ch) = (\<lambda>s.
        bnd (getNode n s) (\<lambda>nd s.
          case children nd ch of
            Some k \<Rightarrow> ret k s
          | None \<Rightarrow>
              if n = ROOT then ret ROOT s
              else bnd (resolve k (GetSuffix n) s) (\<lambda>sfx s. resolve k (Transition sfx ch) s)))" for k
      by (intro HOL.ext) (rule resolve_Transition)
    have "replays wd
       (\<lambda>s. case children nd ch of
            Some k \<Rightarrow> ret k s
          | None \<Rightarrow>
              if n = ROOT then ret ROOT s
              else bnd (resolve d (GetSuffix n) s) (\<lambda>sfx s. resolve d (Transition sfx ch) s))
       (\<lambda>s. case children nd' ch of
            Some k \<Rightarrow> ret k s
          | None \<Rightarrow>
              if n = ROOT then ret ROOT s
              else bnd (resolve e (GetSuffix n) s) (\<lambda>sfx s. resolve e (Transition sfx ch) s))"
      if "children nd' = children nd" for nd nd' :: node
    proof (cases "children nd ch")
      case (Some k)
      with that show ?thesis by (simp add: replays_ret)
    next
      case None
      show ?thesis
      proof (cases "n = ROOT")
        case True
        with None that show ?thesis by (simp add: replays_ret)
      next
        case False
        have "replays wd
            (\<lambda>s. bnd (resolve d (GetSuffix n) s) (\<lambda>sfx s. resolve d (Transition sfx ch) s))
            (\<lambda>s. bnd (resolve e (GetSuffix n) s) (\<lambda>sfx s. resolve e (Transition sfx ch) s))"
          by (rule replays_bnd) (rule Suc.IH[OF e(2)])+
        with None that False show ?thesis by simp
      qed
    qed
    then show ?thesis
      unfolding Transition e(1) eq by (intro replays_getNode_bnd)
  qed
qed

lemma replays_getWord:
  assumes "d \<le> d'"
  shows "replays wd (getWord d n) (getWord d' n)"
  unfolding replays_def
proof (intro allI impI conjI)
  fix s r s1
  assume inv: "trie_inv wd s" and run: "getWord d n s = Some (r, s1)"
  from getWord_ext[OF inv run] show "trie_inv wd s1" "memo_ext s s1" by simp_all
  fix w t
  assume r: "r = Inr w" and t: "memo_ext s1 t"
  have "d \<noteq> 0"
  proof
    assume "d = 0"
    with run r show False by (simp add: getWord_0)
  qed
  with assms obtain e where e: "d' = Suc e" by (cases d') auto
  from getWord_memoizes[OF run[unfolded r]] obtain nd1 where
    "nodes s1 n = Some nd1" "word nd1 = Some w" by blast
  from memo_ext_word[OF t this] obtain nd' where "nodes t n = Some nd'" "word nd' = Some w"
    by blast
  then show "getWord d' n t = Some (Inr w, t)"
    by (simp add: e getWord_unfold ret_def)
qed

lemma replays_getWords_loop_run:
  assumes run: "getWords_loop d cur result s = Some y"
  shows "d \<le> d' \<longrightarrow> trie_inv wd s \<longrightarrow>
     trie_inv wd (snd y) \<and> memo_ext s (snd y)
     \<and> (\<forall>v t. fst y = Inr v \<longrightarrow> memo_ext (snd y) t \<longrightarrow>
           getWords_loop d' cur result t = Some (Inr v, t))"
proof (rule getWords_loop.raw_induct
    [where P = "\<lambda>d cur result s y. d \<le> d' \<longrightarrow> trie_inv wd s \<longrightarrow>
       trie_inv wd (snd y) \<and> memo_ext s (snd y)
       \<and> (\<forall>v t. fst y = Inr v \<longrightarrow> memo_ext (snd y) t \<longrightarrow>
             getWords_loop d' cur result t = Some (Inr v, t))", OF _ run], goal_cases)
  case (1 loop d cur result s y)
  note IH = 1(1)
  note eq = 1(2)
  show ?case
  proof (intro impI)
    assume dd: "d \<le> d'" and inv: "trie_inv wd s"
    have rec: "replays wd (loop d c res) (getWords_loop d' c res)" for c res
      unfolding replays_def using IH[of d c res] dd by fastforce
    obtain r s1 where y: "y = (r, s1)" by (cases y)
    show "trie_inv wd (snd y) \<and> memo_ext s (snd y)
       \<and> (\<forall>v t. fst y = Inr v \<longrightarrow> memo_ext (snd y) t \<longrightarrow>
             getWords_loop d' cur result t = Some (Inr v, t))"
    proof (cases "cur = ROOT")
      case True
      with eq y have "r = Inr result" "s1 = s" by simp_all
      moreover from True have "getWords_loop d' cur result t = Some (Inr result, t)" for t
        by (subst getWords_loop.simps) (simp add: ret_def)
      ultimately show ?thesis using y inv by simp
    next
      case False
      have body: "replays wd
          (\<lambda>t. bnd (getSuffix d cur t) (\<lambda>cur t.
             bnd (getNode cur t) (\<lambda>nd t.
               if end_flag nd
               then bnd (getWord d cur t) (\<lambda>w t. loop d cur (result @ [w]) t)
               else loop d cur result t)))
          (\<lambda>t. bnd (getSuffix d' cur t) (\<lambda>cur t.
             bnd (getNode cur t) (\<lambda>nd t.
               if end_flag nd
               then bnd (getWord d' cur t) (\<lambda>w t. getWords_loop d' cur (result @ [w]) t)
               else getWords_loop d' cur result t)))"
      proof (rule replays_bnd)
        show "replays wd (getSuffix d cur) (getSuffix d' cur)"
          using replays_getSuffix[OF dd, of wd cur] by (simp add: getSuffix_def[abs_def])
      next
        fix f
        show "replays wd
            (\<lambda>t. bnd (getNode f t) (\<lambda>nd t.
               if end_flag nd
               then bnd (getWord d f t) (\<lambda>w t. loop d f (result @ [w]) t)
               else loop d f result t))
            (\<lambda>t. bnd (getNode f t) (\<lambda>nd t.
               if end_flag nd
               then bnd (getWord d' f t) (\<lambda>w t. getWords_loop d' f (result @ [w]) t)
               else getWords_loop d' f result t))"
        proof (rule replays_getNode_bnd)
          fix nd nd' :: node
          assume e: "end_flag nd' = end_flag nd"
          have "replays wd (\<lambda>t. bnd (getWord d f t) (\<lambda>w t. loop d f (result @ [w]) t))
              (\<lambda>t. bnd (getWord d' f t) (\<lambda>w t. getWords_loop d' f (result @ [w]) t))"
            by (rule replays_bnd) (rule replays_getWord[OF dd] rec)+
          with rec[of f result] e
          show "replays wd
              (\<lambda>t. if end_flag nd
                 then bnd (getWord d f t) (\<lambda>w t. loop d f (result @ [w]) t)
                 else loop d f result t)
              (\<lambda>t. if end_flag nd'
                 then bnd (getWord d' f t) (\<lambda>w t. getWords_loop d' f (result @ [w]) t)
                 else getWords_loop d' f result t)"
            by (cases "end_flag nd") simp_all
        qed
      qed
      from eq y False have run1: "bnd (getSuffix d cur s) (\<lambda>cur t.
             bnd (getNode cur t) (\<lambda>nd t.
               if end_flag nd
               then bnd (getWord d cur t) (\<lambda>w t. loop d cur (result @ [w]) t)
               else loop d cur result t)) = Some (r, s1)"
        by simp
      have unf: "getWords_loop d' cur result t = bnd (getSuffix d' cur t) (\<lambda>cur t.
             bnd (getNode cur t) (\<lambda>nd t.
               if end_flag nd
               then bnd (getWord d' cur t) (\<lambda>w t. getWords_loop d' cur (result @ [w]) t)
               else getWords_loop d' cur result t))" for t
        using False by (subst getWords_loop.simps) simp
      from replaysD[OF body inv run1] y show ?thesis by (simp add: unf)
    qed
  qed
qed

lemma replays_getWords_loop:
  assumes "d \<le> d'"
  shows "replays wd (getWords_loop d cur result) (getWords_loop d' cur result)"
  unfolding replays_def using replays_getWords_loop_run[of d cur result _ _ d' wd] assms
  by fastforce

lemma replays_getWords:
  assumes "d \<le> d'"
  shows "replays wd (getWords d n) (getWords d' n)"
proof (cases d)
  case 0
  then show ?thesis by (simp add: getWords_0 replays_raise)
next
  case (Suc k)
  with assms obtain e where e: "d' = Suc e" "k \<le> e" by (cases d') auto
  have "replays wd
      (\<lambda>s. bnd (if end_flag nd then bnd (getWord k n s) (\<lambda>w s. ret [w] s) else ret [] s)
         (\<lambda>result s. getWords_loop k n result s))
      (\<lambda>s. bnd (if end_flag nd' then bnd (getWord e n s) (\<lambda>w s. ret [w] s) else ret [] s)
         (\<lambda>result s. getWords_loop e n result s))"
    if "end_flag nd' = end_flag nd" for nd nd' :: node
  proof (rule replays_bnd)
    have "replays wd (\<lambda>s. bnd (getWord k n s) (\<lambda>w s. ret [w] s))
        (\<lambda>s. bnd (getWord e n s) (\<lambda>w s. ret [w] s))"
      by (rule replays_bnd) (rule replays_getWord[OF e(2)] replays_ret)+
    moreover have "replays wd (\<lambda>s. ret [] s) (\<lambda>s. ret ([] :: string list) s)"
      by (rule replays_ret)
    ultimately show "replays wd
        (\<lambda>s. if end_flag nd then bnd (getWord k n s) (\<lambda>w s. ret [w] s) else ret [] s)
        (\<lambda>s. if end_flag nd' then bnd (getWord e n s) (\<lambda>w s. ret [w] s) else ret [] s)"
      using that by (cases "end_flag nd") simp_all
  next
    fix result
    show "replays wd (\<lambda>s. getWords_loop k n result s) (\<lambda>s. getWords_loop e n result s)"
      by (rule replays_getWords_loop[OF e(2)])
  qed
  then show ?thesis
    unfolding Suc e(1) getWords_Suc by (intro replays_getNode_bnd)
qed

lemma replays_query_loop:
  assumes dd: "d \<le> d'"
  shows "replays wd (query_loop d h cur results) (query_loop d' h cur results)"
proof (induction h arbitrary: cur results)
  case Nil
  have "query_loop k [] cur results = ret results" for k
    by (intro HOL.ext) simp
  then show ?case by (simp add: replays_ret)
next
  case (Cons c cs)
  have eq: "query_loop k (c # cs) cur results = (\<lambda>t.
      bnd (transition k cur [c] t) (\<lambda>cur t.
      bnd (getNode cur t) (\<lambda>nd t.
        if end_flag nd
        then bnd (getWords k cur t) (\<lambda>words t. query_loop k cs cur (fold insert words results) t)
        else query_loop k cs cur results t)))" for k
    by (intro HOL.ext) simp
  show ?case
    unfolding eq
  proof (rule replays_bnd)
    show "replays wd (transition d cur [c]) (transition d' cur [c])"
      using replays_resolve[OF dd, of wd "Transition cur [c]"] by (simp add: transition_def[abs_def])
  next
    fix v
    show "replays wd
        (\<lambda>t. bnd (getNode v t) (\<lambda>nd t.
           if end_flag nd
           then bnd (getWords d v t) (\<lambda>words t. query_loop d cs v (fold insert words results) t)
           else query_loop d cs v results t))
        (\<lambda>t. bnd (getNode v t) (\<lambda>nd t.
           if end_flag nd
           then bnd (getWords d' v t) (\<lambda>words t. query_loop d' cs v (fold insert words results) t)
           else query_loop d' cs v results t))"
    proof (rule replays_getNode_bnd)
      fix nd nd' :: node
      assume e: "end_flag nd' = end_flag nd"
      have "replays wd
          (\<lambda>t. bnd (getWords d v t) (\<lambda>words t. query_loop d cs v (fold insert words results) t))
          (\<lambda>t. bnd (getWords d' v t) (\<lambda>words t. query_loop d' cs v (fold insert words results) t))"
        by (rule replays_bnd) (rule replays_getWords[OF dd] Cons.IH)+
      with Cons.IH[of v results] e
      show "replays wd
          (\<lambda>t. if end_flag nd
             then bnd (getWords d v t) (\<lambda>words t. query_loop d cs v (fold insert words results) t)
             else query_loop d cs v results t)
          (\<lambda>t. if end_flag nd'
             then bnd (getWords d' v t) (\<lambda>words t. query_loop d' cs v (fold insert words results) t)
             else query_loop d' cs v results t)"
        by (cases "end_flag nd") simp_all
    qed
  qed
qed

lemma replays_query: "d \<le> d' \<Longrightarrow> replays wd (query d h) (query d' h)"
  using replays_query_loop[of d d' wd h ROOT "{}"] by (simp add: query_def[abs_def])

section \<open>Paths and words\<close>

lemma wd_inj:
  assumes inv: "trie_inv wd s"
  shows "nodes s k \<noteq> None \<Longrightarrow> nodes s k' \<noteq> None \<Longrightarrow> wd k = wd k' \<Longrightarrow> k = k'"
proof (induction "length (wd k)" arbitrary: k k' rule: less_induct)
  case less
  from inv have root: "wd ROOT = []" by (rule trie_inv_rootD)
  from less.prems obtain kd kd' where kd: "nodes s k = Some kd" "nodes s k' = Some kd'" by auto
  show ?case
  proof (cases "k = ROOT \<or> k' = ROOT")
    case True
    show ?thesis
    proof (rule ccontr)
      assume ne: "k \<noteq> k'"
      with True consider "k = ROOT" "k' \<noteq> ROOT" | "k' = ROOT" "k \<noteq> ROOT" by blast
      then show False
      proof cases
        case 1
        from inv kd(2) 1(2) obtain c where "wd k' = wd (parent kd') @ [c]"
          by (auto elim: trie_inv_parentD)
        with 1(1) root less.prems(3) show False by simp
      next
        case 2
        from inv kd(1) 2(2) obtain c where "wd k = wd (parent kd) @ [c]"
          by (auto elim: trie_inv_parentD)
        with 2(1) root less.prems(3) show False by simp
      qed
    qed
  next
    case False
    then have ne: "k \<noteq> ROOT" "k' \<noteq> ROOT" by auto
    from inv kd(1) ne(1) obtain c pn where c: "nodes s (parent kd) = Some pn"
      "children pn [c] = Some k" "wd k = wd (parent kd) @ [c]" by (auto elim: trie_inv_parentD)
    from inv kd(2) ne(2) obtain c' pn' where c': "nodes s (parent kd') = Some pn'"
      "children pn' [c'] = Some k'" "wd k' = wd (parent kd') @ [c']" by (auto elim: trie_inv_parentD)
    from c(3) c'(3) less.prems(3) have eq: "wd (parent kd) = wd (parent kd')" "c = c'" by auto
    from c(3) have "length (wd (parent kd)) < length (wd k)" by simp
    from less.hyps[OF this _ _ eq(1)] c(1) c'(1) have "parent kd = parent kd'" by simp
    with c c' eq(2) show ?thesis by simp
  qed
qed

lemma walk_append:
  "walk s k (xs @ ys) = (case walk s k xs of None \<Rightarrow> None | Some k' \<Rightarrow> walk s k' ys)"
proof (induction xs arbitrary: k)
  case Nil
  show ?case by (cases ys) (auto split: option.splits)
next
  case (Cons x xs)
  then show ?case by (auto split: option.splits)
qed

lemma walk_cong: "nodes s' = nodes s \<Longrightarrow> walk s' k cs = walk s k cs"
  by (induction cs arbitrary: k) (auto split: option.splits)

lemma walk_wd:
  assumes inv: "trie_inv wd s"
  shows "nodes s k \<noteq> None \<Longrightarrow> nodes s cur \<noteq> None \<Longrightarrow> wd k = wd cur @ cs \<Longrightarrow>
    walk s cur cs = Some k"
proof (induction cs arbitrary: k rule: rev_induct)
  case Nil
  with wd_inj[OF inv, of k cur] have "k = cur" by simp
  with Nil.prems(2) show ?case by auto
next
  case (snoc c cs)
  from inv have root: "wd ROOT = []" by (rule trie_inv_rootD)
  from snoc.prems(1) obtain kd where kd: "nodes s k = Some kd" by auto
  from snoc.prems(3) root have "k \<noteq> ROOT" by auto
  with inv kd obtain c' pn where c': "nodes s (parent kd) = Some pn"
    "children pn [c'] = Some k" "wd k = wd (parent kd) @ [c']" by (auto elim: trie_inv_parentD)
  with snoc.prems(3) have eq: "wd (parent kd) = wd cur @ cs" "c' = c" by auto
  from snoc.IH[OF _ snoc.prems(2) eq(1)] c'(1) have "walk s cur cs = Some (parent kd)" by simp
  with c' eq(2) kd show ?case by (simp add: walk_append)
qed

lemma wd_walk:
  assumes inv: "trie_inv wd s"
  shows "walk s cur cs = Some k \<Longrightarrow> nodes s k \<noteq> None \<and> wd k = wd cur @ cs"
proof (induction cs arbitrary: cur)
  case Nil
  then show ?case by (auto split: option.splits)
next
  case (Cons c cs)
  from Cons.prems obtain nd k1 where k1: "nodes s cur = Some nd" "children nd [c] = Some k1"
    "walk s k1 cs = Some k" by (auto split: option.splits)
  from inv k1(1,2) have "wd k1 = wd cur @ [c]" by (rule trie_inv_childD)
  with Cons.IH[OF k1(3)] show ?case by simp
qed

section \<open>\<^verbatim>\<open>delete\<close>\<close>

lemma delete_loop_walk:
  assumes inv: "trie_inv wd s"
  shows "walk s cur cs = Some k \<Longrightarrow> delete_loop cs cur s = Some (Inr k, s)"
proof (induction cs arbitrary: cur)
  case Nil
  then show ?case by (auto simp: ret_def split: option.splits)
next
  case (Cons c cs)
  from Cons.prems obtain nd k1 where k1: "nodes s cur = Some nd" "children nd [c] = Some k1"
    "walk s k1 cs = Some k" by (auto split: option.splits)
  from inv k1(1,2) have "k1 \<noteq> ROOT" by (rule trie_inv_childD)
  with k1 Cons.IH[OF k1(3)] show ?case by (simp add: ROOT_def)
qed

lemma trie_inv_cong:
  "nodes s' = nodes s \<Longrightarrow> next_id s' = next_id s \<Longrightarrow> trie_inv wd s' = trie_inv wd s"
  by (simp add: trie_inv_def root_ok_def parents_ok_def children_ok_def fresh_ok_def
      words_ok_def links_ok_def)

lemma dict_inv_cong: "nodes s' = nodes s \<Longrightarrow> dict_inv wd D s' = dict_inv wd D s"
  by (simp add: dict_inv_def)

lemma trie_inv_setEnd:
  assumes inv: "trie_inv wd s" and k: "nodes s k = Some nd"
  shows "trie_inv wd (s\<lparr>nodes := (nodes s)(k \<mapsto> nd\<lparr>end_flag := b\<rparr>)\<rparr>)"
    (is "trie_inv wd ?s'")
proof -
  have bwd: "\<And>j jd'. nodes ?s' j = Some jd' \<Longrightarrow>
      \<exists>jd. nodes s j = Some jd \<and> char jd' = char jd \<and> children jd' = children jd
        \<and> parent jd' = parent jd \<and> suffixOf jd' = suffixOf jd
        \<and> suffix_link jd' = suffix_link jd \<and> word jd' = word jd"
    using k by (auto split: if_splits)
  have fwd: "\<And>j jd. nodes s j = Some jd \<Longrightarrow>
      \<exists>jd'. nodes ?s' j = Some jd' \<and> char jd' = char jd \<and> children jd' = children jd
        \<and> parent jd' = parent jd \<and> suffixOf jd' = suffixOf jd
        \<and> suffix_link jd' = suffix_link jd \<and> word jd' = word jd"
    using k by auto
  have "root_ok wd ?s'"
    using inv fwd[of ROOT] unfolding trie_inv_def root_ok_def by auto
  moreover have "parents_ok wd ?s'"
    unfolding parents_ok_def
  proof (intro allI impI)
    fix j jd' assume j: "nodes ?s' j = Some jd'" "j \<noteq> ROOT"
    from bwd[OF j(1)] obtain jd where jd: "nodes s j = Some jd" "char jd' = char jd"
      "parent jd' = parent jd" by blast
    from inv jd(1) j(2) obtain c pn where c: "char jd = [c]" "nodes s (parent jd) = Some pn"
      "children pn [c] = Some j" "wd j = wd (parent jd) @ [c]" by (rule trie_inv_parentD)
    from fwd[OF c(2)] obtain pn' where "nodes ?s' (parent jd) = Some pn'" "children pn' = children pn"
      by blast
    with c jd show "\<exists>c pn. char jd' = [c] \<and> nodes ?s' (parent jd') = Some pn
        \<and> children pn [c] = Some j \<and> wd j = wd (parent jd') @ [c]" by auto
  qed
  moreover have "children_ok ?s'"
    unfolding children_ok_def
  proof (intro allI impI)
    fix j jd' ch j' assume j: "nodes ?s' j = Some jd'" "children jd' ch = Some j'"
    from bwd[OF j(1)] obtain jd where jd: "nodes s j = Some jd" "children jd' = children jd"
      by blast
    with j(2) have "children jd ch = Some j'" by simp
    from trie_inv_childD[OF inv jd(1) this] obtain kn where kn: "j' \<noteq> ROOT" "nodes s j' = Some kn"
      "parent kn = j" "char kn = ch" by metis
    from fwd[OF kn(2)] kn
    show "j' \<noteq> ROOT \<and> (\<exists>kn. nodes ?s' j' = Some kn \<and> parent kn = j \<and> char kn = ch)" by auto
  qed
  moreover have "fresh_ok ?s'"
    using inv k unfolding trie_inv_def fresh_ok_def by (auto split: if_splits)
  moreover have "words_ok wd ?s'"
    using inv k unfolding trie_inv_def words_ok_def by (auto split: if_splits)
  moreover have "links_ok wd ?s'"
    unfolding links_ok_def
  proof (intro allI impI)
    fix j jd' y assume j: "nodes ?s' j = Some jd'" "suffix_link jd' = Some y" "j \<noteq> ROOT"
    from bwd[OF j(1)] j(2) obtain jd where jd: "nodes s j = Some jd" "suffix_link jd = Some y"
      by auto
    from trie_inv_linkD[OF inv jd j(3)] have "nodes s y \<noteq> None" "strict_suffix (wd y) (wd j)" .
    with fwd[of y] show "nodes ?s' y \<noteq> None \<and> strict_suffix (wd y) (wd j)" by auto
  qed
  ultimately show ?thesis by (simp add: trie_inv_def)
qed

lemma dict_inv_setEnd:
  assumes inv: "trie_inv wd s" and dinv: "dict_inv wd D s" and k: "nodes s k = Some nd"
    and D': "D' = (if b then insert (wd k) D else D - {wd k})" and ne: "wd k \<noteq> []"
  shows "dict_inv wd D' (s\<lparr>nodes := (nodes s)(k \<mapsto> nd\<lparr>end_flag := b\<rparr>)\<rparr>)"
    (is "dict_inv wd D' ?s'")
  unfolding dict_inv_def
proof (intro conjI allI impI ballI)
  fix j jd' assume j: "nodes ?s' j = Some jd'"
  show "end_flag jd' \<longleftrightarrow> wd j \<in> D'"
  proof (cases "j = k")
    case True
    with j D' show ?thesis by auto
  next
    case False
    with j have jd: "nodes s j = Some jd'" by simp
    with wd_inj[OF inv, of j k] k False have "wd j \<noteq> wd k" by auto
    with dict_inv_endD[OF dinv jd] D' show ?thesis by auto
  qed
next
  fix w assume "w \<in> D'"
  with dinv D' ne show "w \<noteq> []" unfolding dict_inv_def by (auto split: if_splits)
next
  fix w assume w: "w \<in> D'"
  have "\<exists>j jd. nodes s j = Some jd \<and> wd j = w"
  proof (cases "w = wd k")
    case True
    with k show ?thesis by blast
  next
    case False
    with w D' have "w \<in> D" by (auto split: if_splits)
    with dinv show ?thesis unfolding dict_inv_def by blast
  qed
  then obtain j jd where "nodes s j = Some jd" "wd j = w" by blast
  then show "\<exists>j jd. nodes ?s' j = Some jd \<and> wd j = w"
    by (cases "j = k") auto
qed

lemma cover_ok_cong: "nodes s' = nodes s \<Longrightarrow> cover_ok wd W s' = cover_ok wd W s"
  by (simp add: cover_ok_def)

lemma cover_ok_mono: "cover_ok wd W s \<Longrightarrow> W \<subseteq> W' \<Longrightarrow> cover_ok wd W' s"
  unfolding cover_ok_def by blast

lemma cover_ok_setEnd:
  assumes "cover_ok wd W s" "nodes s k = Some nd"
  shows "cover_ok wd W (s\<lparr>nodes := (nodes s)(k \<mapsto> nd\<lparr>end_flag := b\<rparr>)\<rparr>)"
  using assms unfolding cover_ok_def by (auto split: if_splits)

lemma cover_ok_forget:
  assumes "forget s' = forget s" "cover_ok wd W s"
  shows "cover_ok wd W s'"
  using assms(2) forget_dom[OF assms(1)] unfolding cover_ok_def by simp

lemma cover_ok_length:
  assumes "trie_inv wd s" "cover_ok wd W s" "\<forall>w\<in>W. length w \<le> L" "nodes s k \<noteq> None"
  shows "length (wd k) \<le> L"
proof (cases "k = ROOT")
  case True
  with assms(1) show ?thesis by (auto elim: trie_inv_rootD)
next
  case False
  with assms(2,4) obtain w where "w \<in> W" "prefix (wd k) w" unfolding cover_ok_def by blast
  with assms(3) prefix_length_le[of "wd k" w] show ?thesis by fastforce
qed

lemma unmemo_setEnd:
  assumes "unmemo s" "nodes s k = Some nd"
  shows "unmemo (s\<lparr>nodes := (nodes s)(k \<mapsto> nd\<lparr>end_flag := b\<rparr>)\<rparr>)"
  using assms unfolding unmemo_def by (auto split: if_splits)

lemma delete_active:
  assumes sinv: "state_inv s" and w: "w \<in> dict s"
  obtains k nd where "walk s ROOT w = Some k" "nodes s k = Some nd" "end_flag nd"
    "delete w s = Some (Inr (), s\<lparr>dict := dict s - {w}, ghosts := insert w (ghosts s),
                                    nodes := (nodes s)(k \<mapsto> nd\<lparr>end_flag := False\<rparr>)\<rparr>)"
    "state_inv (s\<lparr>dict := dict s - {w}, ghosts := insert w (ghosts s),
                  nodes := (nodes s)(k \<mapsto> nd\<lparr>end_flag := False\<rparr>)\<rparr>)"
proof -
  from sinv obtain wd where inv: "trie_inv wd s" and dinv: "dict_inv wd (dict s) s"
    and cov: "cover_ok wd (dict s \<union> ghosts s) s"
    and disj: "dict s \<inter> ghosts s = {}" unfolding state_inv_def by blast
  from dinv w obtain k nd where k: "nodes s k = Some nd" "wd k = w" and ne: "w \<noteq> []"
    unfolding dict_inv_def by blast
  from inv obtain r where root: "nodes s ROOT = Some r" "wd ROOT = []" by (rule trie_inv_rootD)
  from walk_wd[OF inv, of k ROOT w] k root have walk: "walk s ROOT w = Some k" by simp
  from dict_inv_endD[OF dinv k(1)] k(2) w have e: "end_flag nd" by simp
  let ?s1 = "s\<lparr>dict := dict s - {w}, ghosts := insert w (ghosts s)\<rparr>"
  let ?s' = "s\<lparr>dict := dict s - {w}, ghosts := insert w (ghosts s),
               nodes := (nodes s)(k \<mapsto> nd\<lparr>end_flag := False\<rparr>)\<rparr>"
  have inv1: "trie_inv wd ?s1" using inv trie_inv_cong[of ?s1 s wd] by simp
  have "walk ?s1 ROOT w = Some k" using walk walk_cong[of ?s1 s ROOT w] by simp
  from delete_loop_walk[OF inv1 this] have "delete_loop w ROOT ?s1 = Some (Inr k, ?s1)" .
  moreover have "setEnd k False ?s1 = Some (Inr (), ?s')"
    using k(1) by (simp add: setEnd_def setNode_def ret_def)
  ultimately have del: "delete w s = Some (Inr (), ?s')"
    using w by (simp add: delete_def)
  have "trie_inv wd (s\<lparr>nodes := (nodes s)(k \<mapsto> nd\<lparr>end_flag := False\<rparr>)\<rparr>)"
    using inv k(1) by (rule trie_inv_setEnd)
  then have inv': "trie_inv wd ?s'"
    using trie_inv_cong[of ?s' "s\<lparr>nodes := (nodes s)(k \<mapsto> nd\<lparr>end_flag := False\<rparr>)\<rparr>" wd] by simp
  have "dict s - {w} = (if False then insert (wd k) (dict s) else dict s - {wd k})"
    using k(2) by simp
  with inv dinv k(1)
  have "dict_inv wd (dict s - {w}) (s\<lparr>nodes := (nodes s)(k \<mapsto> nd\<lparr>end_flag := False\<rparr>)\<rparr>)"
    by (rule dict_inv_setEnd) (use k(2) ne in simp)
  then have dinv': "dict_inv wd (dict ?s') ?s'"
    using dict_inv_cong[of ?s' "s\<lparr>nodes := (nodes s)(k \<mapsto> nd\<lparr>end_flag := False\<rparr>)\<rparr>" wd] by simp
  from w have "dict ?s' \<union> ghosts ?s' = dict s \<union> ghosts s" by auto
  moreover from cov k(1)
  have "cover_ok wd (dict s \<union> ghosts s) (s\<lparr>nodes := (nodes s)(k \<mapsto> nd\<lparr>end_flag := False\<rparr>)\<rparr>)"
    by (rule cover_ok_setEnd)
  then have "cover_ok wd (dict s \<union> ghosts s) ?s'"
    using cover_ok_cong[of ?s' "s\<lparr>nodes := (nodes s)(k \<mapsto> nd\<lparr>end_flag := False\<rparr>)\<rparr>" wd] by simp
  ultimately have cov': "cover_ok wd (dict ?s' \<union> ghosts ?s') ?s'" by simp
  from disj have "dict ?s' \<inter> ghosts ?s' = {}" by auto
  with inv' dinv' cov' have "state_inv ?s'" unfolding state_inv_def by blast
  with walk k(1) e del show thesis by (rule that)
qed

section \<open>\<^verbatim>\<open>add\<close>\<close>

lemma clearSuffixes_noop:
  assumes inv: "trie_inv wd s" and n: "nodes s n = Some nd"
  shows "clearSuffixes n s = Some (Inr (), s)"
proof -
  from inv n have "suffixOf nd = []" unfolding trie_inv_def fresh_ok_def by blast
  moreover have "clearSuffixes_loop False n [] s = ret () s"
    by (subst clearSuffixes_loop.simps) simp
  ultimately show ?thesis using n
    by (simp add: clearSuffixes_def Object_keys_def ret_def)
qed

lemma add_new_inv:
  fixes c :: char and isLast :: bool
  assumes inv: "trie_inv wd s" and dinv: "dict_inv wd D s"
    and cur: "nodes s cur = Some nd" and nochild: "children nd [c] = None"
  defines "nxt \<equiv> next_id s + 1"
  defines "newNode \<equiv> \<lparr>char = [c], children = Map.empty, end_flag = isLast, parent = cur,
                       suffixOf = [], suffix_link = None, word = None\<rparr>"
  defines "s' \<equiv> s\<lparr>nodes := (nodes s)(nxt \<mapsto> newNode,
                                      cur \<mapsto> nd\<lparr>children := (children nd)([c] \<mapsto> nxt)\<rparr>),
                   next_id := nxt\<rparr>"
  defines "wd' \<equiv> wd(nxt := wd cur @ [c])"
  defines "D' \<equiv> (if isLast then insert (wd cur @ [c]) D else D)"
  shows "add_new [c] isLast cur s = Some (Inr nxt, s')"
    and "trie_inv wd' s'" and "dict_inv wd' D' s'"
    and "nodes s' nxt \<noteq> None" and "wd' nxt = wd cur @ [c]"
    and "cover_ok wd W s \<Longrightarrow> \<exists>w\<in>W. prefix (wd cur @ [c]) w \<Longrightarrow> cover_ok wd' W s'"
    and "unmemo s \<Longrightarrow> unmemo s'"
proof -
  from inv obtain r where root: "nodes s ROOT = Some r" "suffix_link r = Some ROOT"
    "word r = Some []" "wd ROOT = []" by (rule trie_inv_rootD)
  have bound: "\<And>k kd. nodes s k = Some kd \<Longrightarrow> k \<le> next_id s \<and> suffixOf kd = []"
    using inv unfolding trie_inv_def fresh_ok_def by blast
  have nxt_new: "nodes s nxt = None"
  proof (cases "nodes s nxt")
    case (Some kd)
    from bound[OF this] show ?thesis by (simp add: nxt_def)
  qed simp
  from bound[OF root(1)] have nxt_root: "nxt \<noteq> ROOT" by (simp add: nxt_def ROOT_def)
  from cur nxt_new have nxt_cur: "nxt \<noteq> cur" by auto
  have old: "\<And>k. nodes s k \<noteq> None \<Longrightarrow> k \<noteq> nxt" using nxt_new by auto
  have wd_old: "\<And>k. nodes s k \<noteq> None \<Longrightarrow> wd' k = wd k" using old by (simp add: wd'_def)
  show wd_nxt: "wd' nxt = wd cur @ [c]" by (simp add: wd'_def)
  have at_nxt: "nodes s' nxt = Some newNode" using nxt_cur by (simp add: s'_def)
  then show "nodes s' nxt \<noteq> None" by simp
  have at_cur: "nodes s' cur = Some (nd\<lparr>children := (children nd)([c] \<mapsto> nxt)\<rparr>)"
    by (simp add: s'_def)
  have at_other: "\<And>k. k \<noteq> cur \<Longrightarrow> k \<noteq> nxt \<Longrightarrow> nodes s' k = nodes s k"
    by (simp add: s'_def)
  have bwd: "\<exists>kd. nodes s k = Some kd \<and> char kd' = char kd \<and> parent kd' = parent kd
        \<and> end_flag kd' = end_flag kd \<and> suffixOf kd' = suffixOf kd
        \<and> suffix_link kd' = suffix_link kd \<and> word kd' = word kd
        \<and> (\<forall>ch j. children kd' ch = Some j \<longrightarrow>
              children kd ch = Some j \<or> (k = cur \<and> ch = [c] \<and> j = nxt))"
    if "nodes s' k = Some kd'" "k \<noteq> nxt" for k kd'
  proof (cases "k = cur")
    case True
    with that at_cur cur show ?thesis by (auto split: if_splits)
  next
    case False
    with that at_other show ?thesis by auto
  qed
  have fwd: "\<exists>kd'. nodes s' k = Some kd' \<and> char kd' = char kd \<and> parent kd' = parent kd
        \<and> suffix_link kd' = suffix_link kd \<and> word kd' = word kd
        \<and> (\<forall>ch j. children kd ch = Some j \<longrightarrow> children kd' ch = Some j)"
    if "nodes s k = Some kd" for k kd
  proof (cases "k = cur")
    case True
    with that at_cur cur nochild show ?thesis by auto
  next
    case False
    with that at_other[OF False] old[of k] show ?thesis by auto
  qed
  have fresh_word: "wd k \<noteq> wd cur @ [c]" if "nodes s k \<noteq> None" for k
  proof
    assume "wd k = wd cur @ [c]"
    from walk_wd[OF inv that _ this] cur have "walk s cur [c] = Some k" by simp
    with cur nochild show False by simp
  qed
  have notD: "wd cur @ [c] \<notin> D"
  proof
    assume "wd cur @ [c] \<in> D"
    with dinv obtain k kd where "nodes s k = Some kd" "wd k = wd cur @ [c]"
      unfolding dict_inv_def by blast
    with fresh_word[of k] show False by simp
  qed

  have "clearSuffixes cur s = Some (Inr (), s)"
    using inv cur by (rule clearSuffixes_noop)
  moreover have "nodes (s\<lparr>nodes := (nodes s)(nxt \<mapsto> newNode)\<rparr>) cur = Some nd"
    using cur nxt_cur by simp
  ultimately show "add_new [c] isLast cur s = Some (Inr nxt, s')"
    by (simp add: add_new_def Let_def setNode_def setChild_def ret_def
        nxt_def[symmetric] newNode_def[symmetric] s'_def)

  have "root_ok wd' s'"
  proof -
    from fwd[OF root(1)] root(2,3) obtain r' where "nodes s' ROOT = Some r'"
      "suffix_link r' = Some ROOT" "word r' = Some []" by auto
    moreover from wd_old[of ROOT] root have "wd' ROOT = []" by simp
    ultimately show ?thesis unfolding root_ok_def by blast
  qed
  moreover have "parents_ok wd' s'"
    unfolding parents_ok_def
  proof (intro allI impI)
    fix k kd' assume k: "nodes s' k = Some kd'" "k \<noteq> ROOT"
    show "\<exists>c pn. char kd' = [c] \<and> nodes s' (parent kd') = Some pn \<and> children pn [c] = Some k
        \<and> wd' k = wd' (parent kd') @ [c]"
    proof (cases "k = nxt")
      case True
      with k at_nxt have "kd' = newNode" by simp
      with True at_cur wd_nxt wd_old[of cur] cur show ?thesis
        by (auto simp: newNode_def)
    next
      case False
      from bwd[OF k(1) False] obtain kd where kd: "nodes s k = Some kd" "char kd' = char kd"
        "parent kd' = parent kd" by blast
      from inv kd(1) k(2) obtain c0 pn where c0: "char kd = [c0]" "nodes s (parent kd) = Some pn"
        "children pn [c0] = Some k" "wd k = wd (parent kd) @ [c0]" by (rule trie_inv_parentD)
      from fwd[OF c0(2)] c0(3) obtain pn' where "nodes s' (parent kd) = Some pn'"
        "children pn' [c0] = Some k" by blast
      moreover from wd_old[of k] wd_old[of "parent kd"] kd(1) c0(2,4)
      have "wd' k = wd' (parent kd) @ [c0]" by simp
      ultimately show ?thesis using kd(2,3) c0(1) by auto
    qed
  qed
  moreover have "children_ok s'"
    unfolding children_ok_def
  proof (intro allI impI)
    fix k kd' ch j assume k: "nodes s' k = Some kd'" "children kd' ch = Some j"
    have k_old: "k \<noteq> nxt"
    proof
      assume "k = nxt"
      with k at_nxt show False by (auto simp: newNode_def)
    qed
    from bwd[OF k(1) k_old] k(2) obtain kd where kd: "nodes s k = Some kd"
      "children kd ch = Some j \<or> (k = cur \<and> ch = [c] \<and> j = nxt)" by blast
    from kd(2) show "j \<noteq> ROOT \<and> (\<exists>kn. nodes s' j = Some kn \<and> parent kn = k \<and> char kn = ch)"
    proof
      assume "children kd ch = Some j"
      from trie_inv_childD[OF inv kd(1) this] obtain jn where jn: "j \<noteq> ROOT"
        "nodes s j = Some jn" "parent jn = k" "char jn = ch" by metis
      from fwd[OF jn(2)] jn show ?thesis by auto
    next
      assume "k = cur \<and> ch = [c] \<and> j = nxt"
      with at_nxt nxt_root show ?thesis by (auto simp: newNode_def)
    qed
  qed
  moreover have "fresh_ok s'"
    unfolding fresh_ok_def
  proof (intro allI impI)
    fix k kd' assume k: "nodes s' k = Some kd'"
    show "suffixOf kd' = [] \<and> k \<le> next_id s'"
    proof (cases "k = nxt")
      case True
      with k at_nxt show ?thesis by (auto simp: newNode_def s'_def)
    next
      case False
      from bwd[OF k False] obtain kd where "nodes s k = Some kd" "suffixOf kd' = suffixOf kd"
        by blast
      with bound[of k kd] show ?thesis by (simp add: s'_def nxt_def)
    qed
  qed
  moreover have "words_ok wd' s'"
    unfolding words_ok_def
  proof (intro allI impI)
    fix k kd' w assume k: "nodes s' k = Some kd'" "word kd' = Some w"
    have k_old: "k \<noteq> nxt"
    proof
      assume "k = nxt"
      with k at_nxt show False by (auto simp: newNode_def)
    qed
    from bwd[OF k(1) k_old] k(2) obtain kd where kd: "nodes s k = Some kd" "word kd = Some w"
      by auto
    with inv have "w = wd k" unfolding trie_inv_def words_ok_def by blast
    with wd_old[of k] kd(1) show "w = wd' k" by simp
  qed
  moreover have "links_ok wd' s'"
    unfolding links_ok_def
  proof (intro allI impI)
    fix k kd' y assume k: "nodes s' k = Some kd'" "suffix_link kd' = Some y" "k \<noteq> ROOT"
    have k_old: "k \<noteq> nxt"
    proof
      assume "k = nxt"
      with k at_nxt show False by (auto simp: newNode_def)
    qed
    from bwd[OF k(1) k_old] k(2) obtain kd where kd: "nodes s k = Some kd"
      "suffix_link kd = Some y" by auto
    from trie_inv_linkD[OF inv kd k(3)] have y: "nodes s y \<noteq> None" "strict_suffix (wd y) (wd k)" .
    from y(1) fwd[of y] have "nodes s' y \<noteq> None" by auto
    with y wd_old[of y] wd_old[of k] kd(1)
    show "nodes s' y \<noteq> None \<and> strict_suffix (wd' y) (wd' k)" by simp
  qed
  ultimately show "trie_inv wd' s'" by (simp add: trie_inv_def)

  show "dict_inv wd' D' s'"
    unfolding dict_inv_def
  proof (intro conjI allI impI ballI)
    fix k kd' assume k: "nodes s' k = Some kd'"
    show "end_flag kd' \<longleftrightarrow> wd' k \<in> D'"
    proof (cases "k = nxt")
      case True
      with k at_nxt have "end_flag kd' = isLast" by (auto simp: newNode_def)
      with True wd_nxt notD show ?thesis by (simp add: D'_def)
    next
      case False
      from bwd[OF k False] obtain kd where kd: "nodes s k = Some kd" "end_flag kd' = end_flag kd"
        by blast
      from dict_inv_endD[OF dinv kd(1)] kd(2) have "end_flag kd' \<longleftrightarrow> wd k \<in> D" by simp
      with fresh_word[of k] wd_old[of k] kd(1) show ?thesis by (simp add: D'_def)
    qed
  next
    fix w assume "w \<in> D'"
    with dinv show "w \<noteq> []" unfolding dict_inv_def D'_def by (auto split: if_splits)
  next
    fix w assume w: "w \<in> D'"
    show "\<exists>k kd. nodes s' k = Some kd \<and> wd' k = w"
    proof (cases "w \<in> D")
      case True
      with dinv obtain k kd where k: "nodes s k = Some kd" "wd k = w"
        unfolding dict_inv_def by blast
      from fwd[OF k(1)] wd_old[of k] k show ?thesis by auto
    next
      case False
      with w have "w = wd cur @ [c]" by (auto simp: D'_def split: if_splits)
      with at_nxt wd_nxt show ?thesis by auto
    qed
  qed

  show "cover_ok wd' W s'" if cov: "cover_ok wd W s" and pre: "\<exists>w\<in>W. prefix (wd cur @ [c]) w"
    unfolding cover_ok_def
  proof (intro allI impI)
    fix k assume k: "nodes s' k \<noteq> None"
    show "k = ROOT \<or> (\<exists>w\<in>W. prefix (wd' k) w)"
    proof (cases "k = nxt")
      case True
      with wd_nxt pre show ?thesis by simp
    next
      case False
      from k obtain kd' where "nodes s' k = Some kd'" by auto
      from bwd[OF this False] have old_k: "nodes s k \<noteq> None" by auto
      with cov have "k = ROOT \<or> (\<exists>w\<in>W. prefix (wd k) w)" unfolding cover_ok_def by blast
      with wd_old[OF old_k] show ?thesis by simp
    qed
  qed

  show "unmemo s'" if un: "unmemo s"
    unfolding unmemo_def
  proof (intro allI impI)
    fix k kd' assume k: "nodes s' k = Some kd'" "k \<noteq> ROOT"
    show "word kd' = None"
    proof (cases "k = nxt")
      case True
      with k at_nxt show ?thesis by (auto simp: newNode_def)
    next
      case False
      from bwd[OF k(1) False] obtain kd where "nodes s k = Some kd" "word kd' = word kd" by blast
      with un k(2) show ?thesis unfolding unmemo_def by auto
    qed
  qed
qed

lemma add_step_existing:
  assumes inv: "trie_inv wd s" and cur: "nodes s cur = Some nd" and k: "children nd [c] = Some k"
  shows "add_step [c] isLast cur s = (if isLast then bnd (setEnd k True s) (\<lambda>_ s. ret k s) else ret k s)"
proof -
  from inv cur k have "k \<noteq> ROOT" by (rule trie_inv_childD)
  with cur k show ?thesis by (simp add: add_step_def ROOT_def)
qed

lemma add_step_new:
  assumes cur: "nodes s cur = Some nd" and k: "children nd [c] = None"
  shows "add_step [c] isLast cur s = add_new [c] isLast cur s"
  using assms by (simp add: add_step_def)

lemma add_loop_inv:
  "rest \<noteq> [] \<Longrightarrow> trie_inv wd s \<Longrightarrow> dict_inv wd D s \<Longrightarrow> nodes s cur \<noteq> None \<Longrightarrow>
   cover_ok wd W s \<Longrightarrow> wd cur @ rest \<in> W \<Longrightarrow>
   \<exists>s' wd'. add_loop rest cur s = Some (Inr (), s') \<and> trie_inv wd' s'
          \<and> dict_inv wd' (insert (wd cur @ rest) D) s' \<and> cover_ok wd' W s'
          \<and> (unmemo s \<longrightarrow> unmemo s')"
proof (induction rest arbitrary: cur s wd)
  case Nil
  then show ?case by simp
next
  case (Cons c cs)
  note inv = Cons.prems(2) and dinv = Cons.prems(3) and cov = Cons.prems(5)
    and inW = Cons.prems(6)
  from Cons.prems(4) obtain nd where nd: "nodes s cur = Some nd" by auto
  from inv obtain r where root: "wd ROOT = []" by (rule trie_inv_rootD)
  show ?case
  proof (cases "children nd [c]")
    case (Some k)
    from trie_inv_childD[OF inv nd Some] obtain kn where kn: "nodes s k = Some kn"
      "wd k = wd cur @ [c]" by metis
    show ?thesis
    proof (cases "cs = []")
      case True
      let ?s1 = "s\<lparr>nodes := (nodes s)(k \<mapsto> kn\<lparr>end_flag := True\<rparr>)\<rparr>"
      from True kn(1) add_step_existing[OF inv nd Some, of True]
      have "add_loop (c # cs) cur s = Some (Inr (), ?s1)"
        by (simp add: setEnd_Some ret_def)
      moreover have "trie_inv wd ?s1" using inv kn(1) by (rule trie_inv_setEnd)
      moreover have "dict_inv wd (insert (wd k) D) ?s1"
        using inv dinv kn(1) by (rule dict_inv_setEnd) (simp_all add: kn(2))
      moreover have "cover_ok wd W ?s1" using cov kn(1) by (rule cover_ok_setEnd)
      moreover have "unmemo s \<longrightarrow> unmemo ?s1" using kn(1) by (auto intro: unmemo_setEnd)
      ultimately show ?thesis using True kn(2) by auto
    next
      case False
      from False add_step_existing[OF inv nd Some, of False]
      have "add_loop (c # cs) cur s = add_loop cs k s" by simp
      moreover from inW kn(2) have "wd k @ cs \<in> W" by simp
      from Cons.IH[OF False inv dinv _ cov this, of ] kn(1)
      obtain s' wd' where "add_loop cs k s = Some (Inr (), s')" "trie_inv wd' s'"
        "dict_inv wd' (insert (wd k @ cs) D) s'" "cover_ok wd' W s'" "unmemo s \<longrightarrow> unmemo s'"
        by auto
      ultimately show ?thesis using kn(2) by auto
    qed
  next
    case None
    let ?nxt = "next_id s + 1"
    let ?s1 = "s\<lparr>nodes := (nodes s)(?nxt \<mapsto> \<lparr>char = [c], children = Map.empty, end_flag = (cs = []),
                    parent = cur, suffixOf = [], suffix_link = None, word = None\<rparr>,
                  cur \<mapsto> nd\<lparr>children := (children nd)([c] \<mapsto> ?nxt)\<rparr>),
                next_id := ?nxt\<rparr>"
    let ?wd1 = "wd(?nxt := wd cur @ [c])"
    let ?D1 = "if cs = [] then insert (wd cur @ [c]) D else D"
    note new = add_new_inv(1-4)[OF inv dinv nd None, where isLast = "cs = []"]
      add_new_inv(5)[OF inv dinv nd None]
    from inW have "\<exists>w\<in>W. prefix (wd cur @ [c]) w"
      by (intro bexI[of _ "wd cur @ c # cs"]) (simp_all add: prefix_def)
    note cov1 = add_new_inv(6)[OF inv dinv nd None cov this, where isLast = "cs = []"]
    have un1: "unmemo s \<longrightarrow> unmemo ?s1"
      using add_new_inv(7)[OF inv dinv nd None, where isLast = "cs = []"] by blast
    from new(1) add_step_new[OF nd None, of "cs = []"]
    have step: "add_loop (c # cs) cur s = add_loop cs ?nxt ?s1" by simp
    show ?thesis
    proof (cases "cs = []")
      case True
      with step have "add_loop (c # cs) cur s = Some (Inr (), ?s1)" by (simp add: ret_def)
      with new(2,3) cov1 un1 True show ?thesis by auto
    next
      case False
      with new(3) have "dict_inv ?wd1 D ?s1" by simp
      moreover from inW new(5) have "?wd1 ?nxt @ cs \<in> W" by simp
      ultimately obtain s' wd' where "add_loop cs ?nxt ?s1 = Some (Inr (), s')" "trie_inv wd' s'"
        "dict_inv wd' (insert (?wd1 ?nxt @ cs) D) s'" "cover_ok wd' W s'"
        "unmemo ?s1 \<longrightarrow> unmemo s'"
        using Cons.IH[OF False new(2) _ new(4) cov1, of ] by blast
      with step new(5) un1 show ?thesis by auto
    qed
  qed
qed

lemma add_inv:
  assumes sinv: "state_inv s"
  obtains (empty) "w = []" "add w s = Some (Inl EmptyWord, s)"
  | (active) "w \<in> dict s" "add w s = Some (Inr (), s)"
  | (added) s' where "w \<noteq> []" "w \<notin> dict s" "add w s = Some (Inr (), s')" "state_inv s'"
      "dict s' = insert w (dict s)" "ghosts s' = ghosts s - {w}" "unmemo s \<longrightarrow> unmemo s'"
proof (cases "w = [] \<or> w \<in> dict s")
  case True
  show thesis
  proof (cases "w = []")
    case True
    then have "add w s = Some (Inl EmptyWord, s)" by (simp add: add_def raise_def)
    with True show thesis by (rule empty)
  next
    case False
    with True have "w \<in> dict s" by simp
    moreover from this False have "add w s = Some (Inr (), s)" by (simp add: add_def ret_def)
    ultimately show thesis by (rule active)
  qed
next
  case False
  from sinv obtain wd where inv: "trie_inv wd s" and dinv: "dict_inv wd (dict s) s"
    and cov: "cover_ok wd (dict s \<union> ghosts s) s"
    and disj: "dict s \<inter> ghosts s = {}" unfolding state_inv_def by blast
  from inv obtain r where root: "nodes s ROOT = Some r" "wd ROOT = []" by (rule trie_inv_rootD)
  let ?s1 = "s\<lparr>dict := insert w (dict s), ghosts := ghosts s - {w}\<rparr>"
  let ?W = "insert w (dict s \<union> ghosts s)"
  have inv1: "trie_inv wd ?s1" using inv trie_inv_cong[of ?s1 s wd] by simp
  have dinv1: "dict_inv wd (dict s) ?s1" using dinv dict_inv_cong[of ?s1 s wd] by simp
  from cov have "cover_ok wd ?W s" by (rule cover_ok_mono) blast
  then have cov1: "cover_ok wd ?W ?s1" using cover_ok_cong[of ?s1 s wd ?W] by simp
  have un1: "unmemo ?s1 = unmemo s" by (simp add: unmemo_def)
  from root have nr: "nodes ?s1 ROOT \<noteq> None" and inW: "wd ROOT @ w \<in> ?W" by simp_all
  from False have "w \<noteq> []" by simp
  from add_loop_inv[OF this inv1 dinv1 nr cov1 inW] root(2)
  obtain s' wd' where s': "add_loop w ROOT ?s1 = Some (Inr (), s')" "trie_inv wd' s'"
    "dict_inv wd' (insert w (dict s)) s'" "cover_ok wd' ?W s'" "unmemo ?s1 \<longrightarrow> unmemo s'"
    by auto
  from same_words_add_loop[OF s'(1)] have sw: "dict s' = insert w (dict s)"
    "ghosts s' = ghosts s - {w}" by (simp_all add: same_words_def)
  from sw have "dict s' \<union> ghosts s' = ?W" by auto
  with s'(4) have cov': "cover_ok wd' (dict s' \<union> ghosts s') s'" by simp
  from False s'(1) have "add w s = Some (Inr (), s')" by (simp add: add_def)
  moreover from s'(2,3) cov' sw disj have "state_inv s'" unfolding state_inv_def by auto
  moreover from s'(5) un1 have "unmemo s \<longrightarrow> unmemo s'" by simp
  ultimately show thesis using False sw by (intro added) auto
qed

lemma delete_inactive: "w \<notin> dict s \<Longrightarrow> delete w s = Some (Inr (), s)"
  by (simp add: delete_def ret_def)

section \<open>\<^verbatim>\<open>query\<close> in a state that satisfies the invariant\<close>

text \<open>
  \<^verbatim>\<open>query\<close> in a state that satisfies the invariant: it ends, and whatever it did it has
  left a state that satisfies the invariant and differs in the memo fields at most. When
  it returns, the set holds active words that occur in the haystack, and every later call
  on the same haystack that returns, returns that set; a call on a stack that is not
  shorter does return. It returns when the stack has two frames more than the longest
  word of the dictionary and of the soft-deleted words has letters.
\<close>

lemma query_inv:
  assumes sinv: "state_inv s"
  obtains r s' where "query d h s = Some (r, s')" "state_inv s'" "forget s' = forget s"
    "r = Inl RangeError \<or> (\<exists>R. r = Inr R \<and> R \<subseteq> {w \<in> dict s. sublist w h})"
    "(\<forall>w\<in>dict s \<union> ghosts s. length w \<le> L) \<and> L + 2 \<le> d \<longrightarrow> r \<noteq> Inl RangeError"
    "\<forall>R d'. r = Inr R \<longrightarrow> d \<le> d' \<longrightarrow> query d' h s' = Some (Inr R, s')"
    "\<forall>R d' R' s''. r = Inr R \<longrightarrow> query d' h s' = Some (Inr R', s'') \<longrightarrow> R' = R"
proof -
  from sinv obtain wd where inv: "trie_inv wd s" and dinv: "dict_inv wd (dict s) s"
    and cov: "cover_ok wd (dict s \<union> ghosts s) s"
    and disj: "dict s \<inter> ghosts s = {}" unfolding state_inv_def by blast
  from query_good[OF inv dinv, of d h] obtain R where
    R: "good wd s (query d h) R (\<forall>k. nodes s k \<noteq> None \<longrightarrow> length (wd k) + 2 \<le> d)"
    "R \<subseteq> {w \<in> dict s. sublist w h}" by blast
  from R(1) inv sim_refl obtain r s' where s': "query d h s = Some (r, s')" "trie_inv wd s'"
    "memo_ext s s'" "r = Inr R \<or> r = Inl RangeError"
    "(\<forall>k. nodes s k \<noteq> None \<longrightarrow> length (wd k) + 2 \<le> d) \<longrightarrow> r = Inr R" by (rule goodD)
  from s'(3) have fg: "forget s' = forget s" by (rule memo_ext_forget)
  then have same: "dict s' = dict s" "ghosts s' = ghosts s" by (simp_all add: forget_eq_iff)
  from fg dinv have "dict_inv wd (dict s) s'" by (rule dict_inv_forget)
  moreover from fg cov have "cover_ok wd (dict s \<union> ghosts s) s'" by (rule cover_ok_forget)
  ultimately have sinv': "state_inv s'" using s'(2) same disj unfolding state_inv_def by auto
  from s'(4) R(2) have sound: "r = Inl RangeError \<or> (\<exists>R. r = Inr R \<and> R \<subseteq> {w \<in> dict s. sublist w h})"
    by blast
  have enough: "(\<forall>w\<in>dict s \<union> ghosts s. length w \<le> L) \<and> L + 2 \<le> d \<longrightarrow> r \<noteq> Inl RangeError"
  proof
    assume L: "(\<forall>w\<in>dict s \<union> ghosts s. length w \<le> L) \<and> L + 2 \<le> d"
    have "length (wd k) + 2 \<le> d" if "nodes s k \<noteq> None" for k
      using cover_ok_length[OF inv cov _ that, of L] L by simp
    with s'(5) show "r \<noteq> Inl RangeError" by simp
  qed
  have again: "query d' h t = Some (Inr R0, t)" if "r = Inr R0" "d \<le> d'" "memo_ext s' t" for R0 d' t
    using replaysD(3)[OF replays_query[OF that(2)] inv s'(1) that(1,3)] .
  have again1: "\<forall>R d'. r = Inr R \<longrightarrow> d \<le> d' \<longrightarrow> query d' h s' = Some (Inr R, s')"
    using again by simp
  have again2: "\<forall>R d' R' s''. r = Inr R \<longrightarrow> query d' h s' = Some (Inr R', s'') \<longrightarrow> R' = R"
  proof (intro allI impI)
    fix R0 d' R' s''
    assume r: "r = Inr R0" and run: "query d' h s' = Some (Inr R', s'')"
    let ?m = "max d d'"
    note second = replaysD[OF replays_query[of d' ?m wd h] s'(2) run]
    from second(3)[of R' s''] have "query ?m h s'' = Some (Inr R', s'')" by simp
    moreover from again[OF r, of ?m s''] second(2) have "query ?m h s'' = Some (Inr R0, s'')"
      by simp
    ultimately show "R' = R0" by simp
  qed
  from s'(1) sinv' fg sound enough again1 again2 show thesis by (rule that)
qed

section \<open>Every reachable state satisfies the invariant\<close>

lemma constructor_inv: "state_inv constructor"
proof -
  let ?wd = "\<lambda>k::int. [] :: string"
  have "trie_inv ?wd constructor"
    by (simp add: trie_inv_def root_ok_def parents_ok_def children_ok_def fresh_ok_def
        words_ok_def links_ok_def constructor_def ROOT_def)
  moreover have "dict_inv ?wd (dict constructor) constructor"
    by (simp add: dict_inv_def constructor_def)
  moreover have "cover_ok ?wd (dict constructor \<union> ghosts constructor) constructor"
    by (simp add: cover_ok_def constructor_def)
  ultimately show ?thesis unfolding state_inv_def by (auto simp: constructor_def)
qed

lemma perform_inv:
  assumes "state_inv s" "perform x s = Some (r, s')"
  shows "state_inv s'"
proof (cases x)
  case (Add w)
  from assms(1) show ?thesis
  proof (cases rule: add_inv[where w = w])
    case empty
    with assms Add show ?thesis by simp
  next
    case active
    with assms Add show ?thesis by simp
  next
    case (added s1)
    with assms Add show ?thesis by simp
  qed
next
  case (Delete w)
  show ?thesis
  proof (cases "w \<in> dict s")
    case True
    from assms(1) True obtain k nd where
      "delete w s = Some (Inr (), s\<lparr>dict := dict s - {w}, ghosts := insert w (ghosts s),
                                    nodes := (nodes s)(k \<mapsto> nd\<lparr>end_flag := False\<rparr>)\<rparr>)"
      "state_inv (s\<lparr>dict := dict s - {w}, ghosts := insert w (ghosts s),
                  nodes := (nodes s)(k \<mapsto> nd\<lparr>end_flag := False\<rparr>)\<rparr>)"
      by (rule delete_active)
    with assms(2) Delete show ?thesis by simp
  next
    case False
    with assms Delete show ?thesis by (simp add: delete_inactive)
  qed
next
  case (Query d h)
  from assms(1) obtain r1 s1 where q: "query d h s = Some (r1, s1)" "state_inv s1"
    by (rule query_inv)
  with assms(2) Query show ?thesis by (cases r1) auto
qed

lemma reachable_inv: "reachable s \<Longrightarrow> state_inv s"
  by (induction rule: reachable.induct) (auto intro: constructor_inv perform_inv)

lemma reachable_perform_all:
  "reachable s \<Longrightarrow> perform_all xs s = Some (r, s') \<Longrightarrow> reachable s'"
proof (induction xs arbitrary: s)
  case Nil
  then show ?case by simp
next
  case (Cons x xs)
  from Cons.prems(2) consider e where "perform x s = Some (Inl e, s')"
    | u s1 where "perform x s = Some (Inr u, s1)" "perform_all xs s1 = Some (r, s')"
    by (auto simp: bnd_eq_Some)
  then show ?case
  proof cases
    case 1
    with Cons.prems(1) show ?thesis by (rule reachable_perform)
  next
    case 2
    from Cons.prems(1) 2(1) have "reachable s1" by (rule reachable_perform)
    from this 2(2) show ?thesis by (rule Cons.IH)
  qed
qed

section \<open>Adding a word whose path exists\<close>

lemma add_loop_walk:
  assumes inv: "trie_inv wd s"
  shows "walk s cur cs = Some k \<Longrightarrow> cs \<noteq> [] \<Longrightarrow> nodes s k = Some nd \<Longrightarrow>
    add_loop cs cur s = Some (Inr (), s\<lparr>nodes := (nodes s)(k \<mapsto> nd\<lparr>end_flag := True\<rparr>)\<rparr>)"
proof (induction cs arbitrary: cur)
  case Nil
  then show ?case by simp
next
  case (Cons c cs)
  from Cons.prems(1) obtain cd k1 where k1: "nodes s cur = Some cd" "children cd [c] = Some k1"
    "walk s k1 cs = Some k" by (auto split: option.splits)
  note step = add_step_existing[OF inv k1(1,2)]
  show ?case
  proof (cases "cs = []")
    case True
    with k1(3) have "k1 = k" by (auto split: option.splits)
    moreover from Cons.prems(3)
    have "setEnd k True s = Some (Inr (), s\<lparr>nodes := (nodes s)(k \<mapsto> nd\<lparr>end_flag := True\<rparr>)\<rparr>)"
      by (simp only: setEnd_Some ret_def)
    ultimately have "add_step [c] True cur s
        = Some (Inr k, s\<lparr>nodes := (nodes s)(k \<mapsto> nd\<lparr>end_flag := True\<rparr>)\<rparr>)"
      using step[of True] by (simp only: if_True bnd_simps ret_def)
    with True show ?thesis by (simp only: add_loop.simps bnd_simps simp_thms ret_def)
  next
    case False
    with step[of False] have "add_loop (c # cs) cur s = add_loop cs k1 s" by simp
    with Cons.IH[OF k1(3) False Cons.prems(3)] show ?thesis by simp
  qed
qed

lemma delete_then_add:
  assumes sinv: "state_inv s" and w: "w \<in> dict s"
  shows "bnd (delete w s) (\<lambda>_. add w) = Some (Inr (), s)"
proof -
  from sinv obtain wd where inv: "trie_inv wd s" and dinv: "dict_inv wd (dict s) s"
    and disj: "dict s \<inter> ghosts s = {}" unfolding state_inv_def by blast
  from dinv w have ne: "w \<noteq> []" unfolding dict_inv_def by blast
  from disj w have ng: "w \<notin> ghosts s" by auto
  from inv have root: "wd ROOT = []" by (rule trie_inv_rootD)
  from sinv w obtain k nd where k: "walk s ROOT w = Some k" "nodes s k = Some nd" "end_flag nd"
    and del: "delete w s = Some (Inr (), s\<lparr>dict := dict s - {w}, ghosts := insert w (ghosts s),
                                    nodes := (nodes s)(k \<mapsto> nd\<lparr>end_flag := False\<rparr>)\<rparr>)"
    by (rule delete_active)
  let ?s1 = "s\<lparr>dict := dict s - {w}, ghosts := insert w (ghosts s),
               nodes := (nodes s)(k \<mapsto> nd\<lparr>end_flag := False\<rparr>)\<rparr>"
  let ?s2 = "s\<lparr>nodes := (nodes s)(k \<mapsto> nd\<lparr>end_flag := False\<rparr>)\<rparr>"
  from w ng have s2: "?s1\<lparr>dict := insert w (dict ?s1), ghosts := ghosts ?s1 - {w}\<rparr> = ?s2"
    by (simp add: insert_absorb)
  have inv2: "trie_inv wd ?s2" using inv k(2) by (rule trie_inv_setEnd)
  from wd_walk[OF inv k(1)] root have "wd k = wd ROOT @ w" by simp
  moreover from inv2 have "nodes ?s2 ROOT \<noteq> None" by (auto elim: trie_inv_rootD)
  moreover have "nodes ?s2 k \<noteq> None" by simp
  ultimately have "walk ?s2 ROOT w = Some k" using walk_wd[OF inv2] by blast
  from add_loop_walk[OF inv2 this ne, of "nd\<lparr>end_flag := False\<rparr>"]
  have "add_loop w ROOT ?s2 = Some (Inr (), ?s2\<lparr>nodes := (nodes ?s2)(k \<mapsto> nd\<lparr>end_flag := True\<rparr>)\<rparr>)"
    by simp
  moreover from k(3) have "nd\<lparr>end_flag := True\<rparr> = nd" by simp
  moreover from k(2) have "(nodes s)(k \<mapsto> nd) = nodes s" by (rule map_upd_triv)
  ultimately have "add_loop w ROOT ?s2 = Some (Inr (), s)" by simp
  with s2 ne have "add w ?s1 = Some (Inr (), s)" by (simp add: add_def)
  with del show ?thesis by simp
qed

section \<open>A word longer than the stack\<close>

text \<open>
  The scan along the path of the one word \<open>w\<close> of a trie that was never queried: the nodes
  before the last are not terminal, and at the last \<^verbatim>\<open>_getWords\<close> calls \<^verbatim>\<open>_getWord\<close>, which
  climbs the whole path. On a stack of \<open>length w + 1\<close> frames or less the call throws.
\<close>

lemma query_loop_overflow:
  assumes inv: "trie_inv wd s" and dinv: "dict_inv wd {w} s" and un: "unmemo s"
    and d: "d \<le> length w + 1"
  shows "walk s cur h = Some k \<Longrightarrow> h \<noteq> [] \<Longrightarrow> wd cur @ h = w \<Longrightarrow>
    query_loop d h cur results s = Some (Inl RangeError, s)"
proof (induction h arbitrary: cur)
  case Nil
  then show ?case by simp
next
  case (Cons c cs)
  from Cons.prems(1) obtain cd k1 where k1: "nodes s cur = Some cd" "children cd [c] = Some k1"
    "walk s k1 cs = Some k" by (auto split: option.splits)
  from trie_inv_childD[OF inv k1(1,2)] obtain kn where kn: "nodes s k1 = Some kn"
    "wd k1 = wd cur @ [c]" by metis
  from dict_inv_endD[OF dinv kn(1)] kn(2) Cons.prems(3) have e: "end_flag kn \<longleftrightarrow> cs = []"
    by auto
  show ?case
  proof (cases d)
    case 0
    then show ?thesis by (simp add: transition_def resolve_0)
  next
    case (Suc e')
    from k1(1,2) have tr: "transition d cur [c] s = Some (Inr k1, s)"
      by (simp add: Suc transition_def resolve_Transition ret_def)
    show ?thesis
    proof (cases "cs = []")
      case True
      with kn(2) Cons.prems(3) have "wd k1 = w" by simp
      with d Suc have "e' \<le> length (wd k1)" by simp
      with getWord_overflow[OF inv un, of k1 e'] kn(1)
      have "getWord e' k1 s = Some (Inl RangeError, s)" by simp
      with kn(1) e True have "getWords d k1 s = Some (Inl RangeError, s)"
        by (simp add: Suc getWords_Suc)
      with tr kn(1) e True show ?thesis by simp
    next
      case False
      from kn(2) Cons.prems(3) have "wd k1 @ cs = w" by simp
      from Cons.IH[OF k1(3) False this] tr kn(1) e False show ?thesis by simp
    qed
  qed
qed

text \<open>
  After the one call \<open>add w\<close> on a new object, \<open>query w\<close> on a stack of \<open>length w + 1\<close>
  frames or less throws \<^verbatim>\<open>RangeError\<close>: whatever the stack, a word is too long for it.
\<close>

lemma add_query_overflow:
  assumes ne: "w \<noteq> []" and d: "stack \<le> length w + 1"
  shows "\<exists>s. add w constructor = Some (Inr (), s) \<and> reachable s \<and> dict s = {w}
      \<and> query stack w s = Some (Inl RangeError, s)"
proof -
  have un0: "unmemo constructor" by (simp add: unmemo_def constructor_def)
  have d0: "dict constructor = {}" by (simp add: constructor_def)
  from constructor_inv show ?thesis
  proof (cases rule: add_inv[where w = w])
    case empty
    with ne show ?thesis by simp
  next
    case active
    with d0 show ?thesis by simp
  next
    case (added s)
    from added(3) have re: "reachable s"
      using reachable_perform[OF reachable_constructor, of "Add w"] by simp
    from added(5) d0 have ds: "dict s = {w}" by simp
    from added(7) un0 have un: "unmemo s" by simp
    from added(4) obtain wd where inv: "trie_inv wd s" and dinv: "dict_inv wd (dict s) s"
      unfolding state_inv_def by blast
    from ds have "w \<in> dict s" by simp
    with added(4) obtain k where walk: "walk s ROOT w = Some k"
      by (rule delete_active)
    from inv have "wd ROOT = []" by (rule trie_inv_rootD)
    then have "wd ROOT @ w = w" by simp
    from query_loop_overflow[OF inv dinv[unfolded ds] un d walk ne this]
    have "query stack w s = Some (Inl RangeError, s)" by (simp add: query_def)
    with added(3) re ds show ?thesis by blast
  qed
qed

section \<open>The claims\<close>

text \<open>A state with two words, to apply the theorems to.\<close>

lemma example_run:
  "\<exists>s. perform_all [Add ''he'', Add ''she''] constructor = Some (Inr (), s)
       \<and> reachable s \<and> dict s = {''he'', ''she''} \<and> ghosts s = {}"
proof -
  have "\<exists>s. perform_all [Add ''he'', Add ''she''] constructor = Some (Inr (), s)
            \<and> dict s = {''he'', ''she''} \<and> ghosts s = {}"
    by (auto simp add: unfold_calls)
  then obtain s where s: "perform_all [Add ''he'', Add ''she''] constructor = Some (Inr (), s)"
    "dict s = {''he'', ''she''}" "ghosts s = {}" by blast
  from reachable_constructor s(1) have "reachable s" by (rule reachable_perform_all)
  with s show ?thesis by blast
qed

text \<open>
  C1. The claim: for every active word \<open>w\<close> and haystack \<open>h\<close>, \<open>query h\<close> contains \<open>w\<close>
  exactly when \<open>w\<close> is a contiguous substring of \<open>h\<close>; at each position every active word
  on the failure-link chain of the current node is reported. The code reports the chain
  only when the current node itself ends a word: after \<open>add b\<close> and \<open>add abc\<close>, the word
  \<open>b\<close> is active and occurs in \<open>ab\<close>, and \<open>query ab\<close> returns the empty set on every stack
  that has a frame for its calls (and throws on the stack that has none).
\<close>

theorem query_misses_word_on_failure_chain:
  "perform_all [Add ''b'', Add ''abc''] constructor \<noteq> None
   \<and> (case perform_all [Add ''b'', Add ''abc''] constructor of
        Some (Inr _, s) \<Rightarrow> ''b'' \<in> dict s
          \<and> query_result (Suc k) ''ab'' s = Some (Inr {})
          \<and> query_result 0 ''ab'' s = Some (Inl RangeError)
      | _ \<Rightarrow> False)
   \<and> sublist ''b'' ''ab''"
proof -
  have "sublist ''b'' (''a'' @ ''b'' @ [])"
    by (rule sublist_appendI)
  then show ?thesis
    by (simp add: unfold_calls)
qed

text \<open>
  C2. The claim: two sequences of \<open>add\<close>/\<open>delete\<close> calls that end with the same active
  set answer every later query alike, whatever queries were interleaved. In the code the
  answer depends on the history in two ways. A deleted word leaves its nodes behind, and
  a scan that stops on such a node reports nothing: with the active set \<open>{b}\<close>,
  \<open>query ab\<close> is empty after \<open>add b, add ab, delete ab\<close> and is \<open>{b}\<close> after \<open>add b\<close>. And a
  query memoizes failure links that a later \<open>add\<close> does not clear: with the active set
  \<open>{ab, b}\<close>, \<open>query ab\<close> is \<open>{ab}\<close> after \<open>add ab, query ab, add b\<close> and is \<open>{ab, b}\<close> after
  \<open>add ab, add b\<close>. The queries are called on any stack of three, respectively four,
  frames or more, so that none of them throws.
\<close>

theorem query_depends_on_history:
  "(case (perform_all [Add ''b'', Add ''ab'', Delete ''ab''] constructor,
          perform_all [Add ''b''] constructor) of
      (Some (Inr _, s1), Some (Inr _, s2)) \<Rightarrow>
         dict s1 = {''b''} \<and> dict s2 = {''b''}
         \<and> query_result (k + 3) ''ab'' s1 = Some (Inr {})
         \<and> query_result (k + 3) ''ab'' s2 = Some (Inr {''b''})
    | _ \<Rightarrow> False)
   \<and> (case (perform_all [Add ''ab'', Query (j + 4) ''ab'', Add ''b''] constructor,
             perform_all [Add ''ab'', Add ''b''] constructor) of
         (Some (Inr _, s1), Some (Inr _, s2)) \<Rightarrow>
            dict s1 = {''ab'', ''b''} \<and> dict s2 = {''ab'', ''b''}
            \<and> query_result (k + 4) ''ab'' s1 = Some (Inr {''ab''})
            \<and> query_result (k + 4) ''ab'' s2 = Some (Inr {''ab'', ''b''})
       | _ \<Rightarrow> False)"
proof -
  have e: "k + 3 = Suc (Suc (Suc k))" "k + 4 = Suc (Suc (Suc (Suc k)))"
    "j + 4 = Suc (Suc (Suc (Suc j)))" by simp_all
  show ?thesis
    unfolding e by (auto simp add: unfold_calls)
qed

text \<open>
  C3. The claim: in every reachable state a memoized failure link of a node is the node
  of the longest proper suffix of the node's word that is a path of the current trie.
  \<^verbatim>\<open>_clearSuffixes\<close> walks \<^verbatim>\<open>suffixOf\<close>, which nothing ever fills, so \<open>add\<close> clears no link:
  after \<open>add ab, query ab, add b\<close> (the query on a stack of four frames or more, so that it
  returns) node \<open>3\<close> spells \<open>ab\<close> and keeps the link to the root that the query memoized,
  while the longest proper suffix of \<open>ab\<close> in the trie is now \<open>b\<close>, at node \<open>4\<close>; the next
  query, on a stack of two frames or more, reads the stale link and misses \<open>b\<close>.
\<close>

theorem memoized_failure_link_goes_stale:
  "(case perform_all [Add ''ab'', Query (j + 4) ''ab'', Add ''b''] constructor of
      Some (Inr _, s) \<Rightarrow>
         walk s ROOT ''ab'' = Some 3
         \<and> map_option suffix_link (nodes s 3) = Some (Some ROOT)
         \<and> longest_suffix_node s ''ab'' = Some 4
         \<and> query_result (k + 2) ''ab'' s = Some (Inr {''ab''})
    | _ \<Rightarrow> False)"
proof -
  have e: "k + 2 = Suc (Suc k)" "j + 4 = Suc (Suc (Suc (Suc j)))" by simp_all
  show ?thesis
    unfolding e by (simp add: unfold_calls)
qed

text \<open>
  C4. In any state, whatever the first \<open>add w\<close> did (returned, or threw), a second
  \<open>add w\<close> leaves the state as the first left it, and so does a second \<open>delete w\<close> after
  a first; two calls in a row are the one call, for the state and for every query that
  follows, on any stack. In a reachable state both calls do return.
\<close>

theorem add_twice_delete_twice:
  "(case add w s of None \<Rightarrow> True | Some (r, s1) \<Rightarrow> map_option snd (add w s1) = Some s1)
   \<and> (case delete w s of None \<Rightarrow> True | Some (r, s1) \<Rightarrow> map_option snd (delete w s1) = Some s1)
   \<and> bnd (add w s) (\<lambda>_. add w) = add w s
   \<and> bnd (delete w s) (\<lambda>_. delete w) = delete w s
   \<and> bnd (bnd (add w s) (\<lambda>_. add w)) (\<lambda>_. query stack h) = bnd (add w s) (\<lambda>_. query stack h)
   \<and> bnd (bnd (delete w s) (\<lambda>_. delete w)) (\<lambda>_. query stack h)
       = bnd (delete w s) (\<lambda>_. query stack h)
   \<and> (reachable s \<longrightarrow> (\<exists>r s1. add w s = Some (r, s1)) \<and> (\<exists>s1. delete w s = Some (Inr (), s1)))"
proof -
  have t: "(\<exists>r s1. add w s = Some (r, s1)) \<and> (\<exists>s1. delete w s = Some (Inr (), s1))"
    if "reachable s"
  proof
    from that have sinv: "state_inv s" by (rule reachable_inv)
    then show "\<exists>r s1. add w s = Some (r, s1)"
      by (cases rule: add_inv[where w = w]) blast+
    show "\<exists>s1. delete w s = Some (Inr (), s1)"
    proof (cases "w \<in> dict s")
      case True
      with sinv obtain k nd where
        "delete w s = Some (Inr (), s\<lparr>dict := dict s - {w}, ghosts := insert w (ghosts s),
                                      nodes := (nodes s)(k \<mapsto> nd\<lparr>end_flag := False\<rparr>)\<rparr>)"
        by (rule delete_active)
      then show ?thesis by blast
    next
      case False
      then show ?thesis by (simp add: delete_inactive)
    qed
  qed
  have a: "add w s1 = Some (if w = [] then Inl EmptyWord else Inr (), s1)"
    if "add w s = Some (r, s1)" for r s1
  proof (cases "w = []")
    case True
    then show ?thesis by (simp add: add_def raise_def)
  next
    case False
    with that have "w \<in> dict s1" by (rule add_leaves_word_active)
    with False show ?thesis by (simp add: add_def ret_def)
  qed
  have d: "delete w s1 = Some (Inr (), s1)" if "delete w s = Some (r, s1)" for r s1
  proof -
    from that have "w \<notin> dict s1" by (rule delete_leaves_word_inactive)
    then show ?thesis by (simp add: delete_def ret_def)
  qed
  have a1: "case add w s of None \<Rightarrow> True | Some (r, s1) \<Rightarrow> map_option snd (add w s1) = Some s1"
    using a by (auto split: option.splits)
  have d1: "case delete w s of None \<Rightarrow> True | Some (r, s1) \<Rightarrow> map_option snd (delete w s1) = Some s1"
    using d by (auto split: option.splits)
  have a2: "bnd (add w s) (\<lambda>_. add w) = add w s"
  proof (cases "add w s")
    case None
    then show ?thesis by simp
  next
    case (Some y)
    obtain r s1 where y: "y = (r, s1)" by (cases y)
    show ?thesis
    proof (cases r)
      case (Inl e)
      with Some y show ?thesis by simp
    next
      case (Inr u)
      with Some y have "w \<noteq> []" by (auto simp: add_def split: if_splits)
      with a[of r s1] Some y Inr show ?thesis by simp
    qed
  qed
  have d2: "bnd (delete w s) (\<lambda>_. delete w) = delete w s"
  proof (cases "delete w s")
    case None
    then show ?thesis by simp
  next
    case (Some y)
    obtain r s1 where y: "y = (r, s1)" by (cases y)
    with d[of r s1] Some show ?thesis by (cases r) simp_all
  qed
  from a1 d1 a2 d2 t show ?thesis by simp
qed

theorem add_twice_delete_twice_witness:
  "\<exists>s. perform_all [Add ''he'', Add ''she''] constructor = Some (Inr (), s)
       \<and> reachable s
       \<and> (\<exists>r s1. add ''it'' s = Some (r, s1)) \<and> (\<exists>s1. delete ''he'' s = Some (Inr (), s1))
       \<and> bnd (add ''it'' s) (\<lambda>_. add ''it'') = add ''it'' s
       \<and> bnd (delete ''he'' s) (\<lambda>_. delete ''he'') = delete ''he'' s"
proof -
  from example_run obtain s where s: "perform_all [Add ''he'', Add ''she''] constructor = Some (Inr (), s)"
    "reachable s" by blast
  with add_twice_delete_twice[of "''it''" s] add_twice_delete_twice[of "''he''" s]
  show ?thesis by blast
qed

text \<open>
  C5. In a reachable state with \<open>w\<close> active, \<open>delete w\<close> followed by \<open>add w\<close> returns and
  leaves the very state it started from, so every query answers as before, on any stack.
\<close>

theorem delete_then_add_restores:
  "reachable s \<Longrightarrow> w \<in> dict s \<Longrightarrow>
   bnd (delete w s) (\<lambda>_. add w) = Some (Inr (), s)
   \<and> bnd (bnd (delete w s) (\<lambda>_. add w)) (\<lambda>_. query stack h) = query stack h s"
proof -
  assume "reachable s" and w: "w \<in> dict s"
  then have "state_inv s" by (simp add: reachable_inv)
  from this w have "bnd (delete w s) (\<lambda>_. add w) = Some (Inr (), s)" by (rule delete_then_add)
  then show ?thesis by simp
qed

theorem delete_then_add_restores_witness:
  "\<exists>s. perform_all [Add ''he'', Add ''she''] constructor = Some (Inr (), s)
       \<and> reachable s \<and> ''he'' \<in> dict s
       \<and> bnd (delete ''he'' s) (\<lambda>_. add ''he'') = Some (Inr (), s)
       \<and> bnd (bnd (delete ''he'' s) (\<lambda>_. add ''he'')) (\<lambda>_. query 5 ''ushers'')
           = query 5 ''ushers'' s"
proof -
  from example_run obtain s where s: "perform_all [Add ''he'', Add ''she''] constructor = Some (Inr (), s)"
    "reachable s" "dict s = {''he'', ''she''}" by blast
  from s(3) have "''he'' \<in> dict s" by simp
  with s(1,2) delete_then_add_restores[OF s(2) this, of 5 "''ushers''"] show ?thesis by blast
qed

text \<open>
  C6. \<open>add\<close> of the empty string throws the precondition error, and the state it leaves
  is the state it was called in.
\<close>

theorem add_empty_raises_unchanged:
  "add [] s = Some (Inl EmptyWord, s)"
  by (simp add: add_def raise_def)

text \<open>
  C7. In a reachable state, \<open>delete w\<close> returns the state unchanged when \<open>w\<close> is not active.
  When \<open>w\<close> is active it returns the state in which \<open>w\<close> has moved from the dictionary to the
  soft-deleted words and the node at the end of the path of \<open>w\<close> has its terminal flag
  cleared: nothing else of the node table differs, no node, no edge, no memoized field.
\<close>

theorem delete_frame:
  "reachable s \<Longrightarrow>
   (w \<notin> dict s \<longrightarrow> delete w s = Some (Inr (), s))
   \<and> (w \<in> dict s \<longrightarrow>
        (\<exists>k nd. walk s ROOT w = Some k \<and> nodes s k = Some nd
           \<and> delete w s = Some (Inr (), s\<lparr>dict := dict s - {w}, ghosts := insert w (ghosts s),
                                          nodes := (nodes s)(k \<mapsto> nd\<lparr>end_flag := False\<rparr>)\<rparr>)))"
proof (intro conjI impI)
  assume "w \<notin> dict s"
  then show "delete w s = Some (Inr (), s)" by (rule delete_inactive)
next
  assume "reachable s" and w: "w \<in> dict s"
  then have "state_inv s" by (simp add: reachable_inv)
  from this w obtain k nd where "walk s ROOT w = Some k" "nodes s k = Some nd"
    "delete w s = Some (Inr (), s\<lparr>dict := dict s - {w}, ghosts := insert w (ghosts s),
                                  nodes := (nodes s)(k \<mapsto> nd\<lparr>end_flag := False\<rparr>)\<rparr>)"
    by (rule delete_active)
  then show "\<exists>k nd. walk s ROOT w = Some k \<and> nodes s k = Some nd
           \<and> delete w s = Some (Inr (), s\<lparr>dict := dict s - {w}, ghosts := insert w (ghosts s),
                                          nodes := (nodes s)(k \<mapsto> nd\<lparr>end_flag := False\<rparr>)\<rparr>)"
    by blast
qed

theorem delete_frame_witness:
  "\<exists>s. perform_all [Add ''he'', Add ''she''] constructor = Some (Inr (), s)
       \<and> reachable s \<and> ''it'' \<notin> dict s \<and> ''he'' \<in> dict s
       \<and> delete ''it'' s = Some (Inr (), s)
       \<and> (\<exists>k nd. walk s ROOT ''he'' = Some k \<and> nodes s k = Some nd
            \<and> delete ''he'' s = Some (Inr (), s\<lparr>dict := dict s - {''he''},
                                             ghosts := insert ''he'' (ghosts s),
                                             nodes := (nodes s)(k \<mapsto> nd\<lparr>end_flag := False\<rparr>)\<rparr>))"
proof -
  from example_run obtain s where s: "perform_all [Add ''he'', Add ''she''] constructor = Some (Inr (), s)"
    "reachable s" "dict s = {''he'', ''she''}" by blast
  from s(3) have m: "''it'' \<notin> dict s" "''he'' \<in> dict s" by simp_all
  with s(1,2) delete_frame[OF s(2), of "''it''"] delete_frame[OF s(2), of "''he''"]
  show ?thesis by blast
qed

text \<open>
  C8. The claim: \<open>query\<close> never fails, in any reachable state and for any haystack. The
  code recurses once for each letter of a word (\<^verbatim>\<open>_getWord\<close> to the root, \<^verbatim>\<open>_getSuffix\<close> and
  \<^verbatim>\<open>_transition\<close> along the failure links), so a word that is longer than the call stack
  makes it throw: after the one call \<open>add w\<close> with \<open>w\<close> of 20000 letters, which returns,
  \<open>query w\<close> on a stack with 10000 frames free throws \<^verbatim>\<open>RangeError\<close>.
\<close>

theorem query_overflows_on_long_word:
  "map_option fst (perform_all [Add (replicate 20000 (CHR ''a''))] constructor) = Some (Inr ())
   \<and> map_option fst (perform_all [Add (replicate 20000 (CHR ''a'')),
                                   Query 10000 (replicate 20000 (CHR ''a''))] constructor)
       = Some (Inl RangeError)"
proof -
  let ?w = "replicate 20000 (CHR ''a'')"
  have "?w \<noteq> []" by simp
  moreover have "(10000 :: nat) \<le> length ?w + 1" by simp
  ultimately obtain s where "add ?w constructor = Some (Inr (), s)"
    "query 10000 ?w s = Some (Inl RangeError, s)"
    using add_query_overflow[of ?w 10000] by blast
  then show ?thesis by simp
qed

text \<open>
  C8, amended. In a reachable state \<open>query h\<close> ends, for every haystack \<open>h\<close> and on every
  stack. It returns a set or throws \<^verbatim>\<open>RangeError\<close>, and it returns a set when the stack has
  two frames more than the longest word that was ever added has letters (the words of
  the dictionary and the soft-deleted ones). Every word of a set it returns is active and
  occurs in \<open>h\<close>, so the set is empty when no active word occurs in \<open>h\<close>; and the query of
  the empty haystack returns the empty set.
\<close>

theorem query_returns_unless_stack_overflows:
  "reachable s \<Longrightarrow>
   (\<exists>r s'. query stack h s = Some (r, s')
       \<and> (r = Inl RangeError
          \<or> (\<exists>R. r = Inr R \<and> (\<forall>w\<in>R. w \<in> dict s \<and> sublist w h)
                \<and> ((\<forall>w\<in>dict s. \<not> sublist w h) \<longrightarrow> R = {})))
       \<and> (2 \<le> stack \<and> (\<forall>w\<in>dict s \<union> ghosts s. length w + 2 \<le> stack) \<longrightarrow> r \<noteq> Inl RangeError))
   \<and> query_result stack [] s = Some (Inr {})"
proof
  assume "reachable s"
  then have "state_inv s" by (rule reachable_inv)
  then obtain r s' where q: "query stack h s = Some (r, s')"
    "r = Inl RangeError \<or> (\<exists>R. r = Inr R \<and> R \<subseteq> {w \<in> dict s. sublist w h})"
    "(\<forall>w\<in>dict s \<union> ghosts s. length w \<le> stack - 2) \<and> stack - 2 + 2 \<le> stack \<longrightarrow> r \<noteq> Inl RangeError"
    by (rule query_inv[where d = stack and h = h and L = "stack - 2"])
  from q(2) have "r = Inl RangeError
      \<or> (\<exists>R. r = Inr R \<and> (\<forall>w\<in>R. w \<in> dict s \<and> sublist w h)
            \<and> ((\<forall>w\<in>dict s. \<not> sublist w h) \<longrightarrow> R = {}))"
    by blast
  moreover have "2 \<le> stack \<and> (\<forall>w\<in>dict s \<union> ghosts s. length w + 2 \<le> stack) \<longrightarrow> r \<noteq> Inl RangeError"
  proof
    assume a: "2 \<le> stack \<and> (\<forall>w\<in>dict s \<union> ghosts s. length w + 2 \<le> stack)"
    have "\<forall>w\<in>dict s \<union> ghosts s. length w \<le> stack - 2"
    proof
      fix w assume "w \<in> dict s \<union> ghosts s"
      with a have "length w + 2 \<le> stack" by blast
      then show "length w \<le> stack - 2" by simp
    qed
    moreover from a have "2 \<le> stack" by (rule conjunct1)
    then have "stack - 2 + 2 \<le> stack" by arith
    ultimately show "r \<noteq> Inl RangeError" using q(3) by blast
  qed
  ultimately show "\<exists>r s'. query stack h s = Some (r, s')
       \<and> (r = Inl RangeError
          \<or> (\<exists>R. r = Inr R \<and> (\<forall>w\<in>R. w \<in> dict s \<and> sublist w h)
                \<and> ((\<forall>w\<in>dict s. \<not> sublist w h) \<longrightarrow> R = {})))
       \<and> (2 \<le> stack \<and> (\<forall>w\<in>dict s \<union> ghosts s. length w + 2 \<le> stack) \<longrightarrow> r \<noteq> Inl RangeError)"
    using q(1) by blast
next
  show "query_result stack [] s = Some (Inr {})"
    by (simp add: query_result_def query_def ret_def)
qed

theorem query_returns_unless_stack_overflows_witness:
  "\<exists>s. perform_all [Add ''he'', Add ''she''] constructor = Some (Inr (), s)
       \<and> reachable s \<and> dict s = {''he'', ''she''} \<and> ghosts s = {}
       \<and> (\<exists>R s'. query 5 ''ushers'' s = Some (Inr R, s')
             \<and> (\<forall>w\<in>R. w \<in> dict s \<and> sublist w ''ushers''))
       \<and> \<not> sublist ''he'' ''xyz'' \<and> \<not> sublist ''she'' ''xyz''
       \<and> (\<exists>s'. query 5 ''xyz'' s = Some (Inr {}, s'))
       \<and> query_result 5 [] s = Some (Inr {})"
proof -
  from example_run obtain s where s: "perform_all [Add ''he'', Add ''she''] constructor = Some (Inr (), s)"
    "reachable s" "dict s = {''he'', ''she''}" "ghosts s = {}" by blast
  have n: "\<not> sublist ''he'' ''xyz''" "\<not> sublist ''she'' ''xyz''"
    by (simp_all add: sublist_code)
  with s(3) have no: "\<forall>w\<in>dict s. \<not> sublist w ''xyz''" by simp
  from s(3,4) have room: "(2 :: nat) \<le> 5 \<and> (\<forall>w\<in>dict s \<union> ghosts s. length w + 2 \<le> 5)" by simp
  from query_returns_unless_stack_overflows[OF s(2), of 5 "''xyz''"] no room
  have "\<exists>s'. query 5 ''xyz'' s = Some (Inr {}, s')" by blast
  moreover from query_returns_unless_stack_overflows[OF s(2), of 5 "''ushers''"] room
  have "\<exists>R s'. query 5 ''ushers'' s = Some (Inr R, s')
      \<and> (\<forall>w\<in>R. w \<in> dict s \<and> sublist w ''ushers'')" by blast
  moreover from query_returns_unless_stack_overflows[OF s(2), of 5 "[]"]
  have "query_result 5 [] s = Some (Inr {})" by blast
  ultimately show ?thesis using s n by blast
qed

text \<open>
  C9. In a reachable state \<open>query h\<close> ends, on every stack, and whether it has returned
  or thrown it leaves the dictionary and the soft-deleted words as they were, and a node
  table that differs from the one it started with by the memoized \<^verbatim>\<open>suffix\<close> and \<^verbatim>\<open>word\<close>
  fields at most (the two states have the same \<open>forget\<close>: the same nodes, with the same
  \<^verbatim>\<open>char\<close>, \<^verbatim>\<open>children\<close>, \<^verbatim>\<open>parent\<close> and \<^verbatim>\<open>end\<close>). When it has returned a set, a second
  \<open>query h\<close>, called in the state the first one left, returns the same set whenever it
  returns, on whatever stack; and it does return on a stack that is not shorter than the
  first one's.
\<close>

theorem query_frame:
  "reachable s \<Longrightarrow>
   \<exists>r s'. query stack h s = Some (r, s')
      \<and> dict s' = dict s \<and> ghosts s' = ghosts s \<and> forget s' = forget s
      \<and> (\<forall>R. r = Inr R \<longrightarrow>
            (\<forall>stack'. stack \<le> stack' \<longrightarrow> query stack' h s' = Some (Inr R, s'))
            \<and> (\<forall>stack' R' s''. query stack' h s' = Some (Inr R', s'') \<longrightarrow> R' = R))"
proof -
  assume "reachable s"
  then have "state_inv s" by (rule reachable_inv)
  then obtain r s' where q: "query stack h s = Some (r, s')" "forget s' = forget s"
    "\<forall>R d'. r = Inr R \<longrightarrow> stack \<le> d' \<longrightarrow> query d' h s' = Some (Inr R, s')"
    "\<forall>R d' R' s''. r = Inr R \<longrightarrow> query d' h s' = Some (Inr R', s'') \<longrightarrow> R' = R"
    by (rule query_inv[where d = stack and h = h and L = 0])
  from q(2) have "dict s' = dict s" "ghosts s' = ghosts s" by (simp_all add: forget_eq_iff)
  with q show ?thesis by blast
qed

theorem query_frame_witness:
  "\<exists>s. perform_all [Add ''he'', Add ''she''] constructor = Some (Inr (), s)
       \<and> reachable s
       \<and> (\<exists>R s'. query 5 ''ushers'' s = Some (Inr R, s')
             \<and> dict s' = dict s \<and> ghosts s' = ghosts s \<and> forget s' = forget s
             \<and> query 5 ''ushers'' s' = Some (Inr R, s')
             \<and> query 7 ''ushers'' s' = Some (Inr R, s'))"
proof -
  from example_run obtain s where s: "perform_all [Add ''he'', Add ''she''] constructor = Some (Inr (), s)"
    "reachable s" "dict s = {''he'', ''she''}" "ghosts s = {}" by blast
  from s(2) have sinv: "state_inv s" by (rule reachable_inv)
  from s(3,4) have room: "(\<forall>w\<in>dict s \<union> ghosts s. length w \<le> 3) \<and> (3 :: nat) + 2 \<le> 5" by simp
  from sinv obtain r0 s0 where q0: "query 5 ''ushers'' s = Some (r0, s0)"
    "r0 = Inl RangeError \<or> (\<exists>R. r0 = Inr R \<and> R \<subseteq> {w \<in> dict s. sublist w ''ushers''})"
    "(\<forall>w\<in>dict s \<union> ghosts s. length w \<le> 3) \<and> 3 + 2 \<le> (5 :: nat) \<longrightarrow> r0 \<noteq> Inl RangeError"
    by (rule query_inv[where d = 5 and h = "''ushers''" and L = 3])
  from q0(2,3) room obtain R where R: "r0 = Inr R" by blast
  from query_frame[OF s(2), of 5 "''ushers''"] q0(1) R
  have "dict s0 = dict s \<and> ghosts s0 = ghosts s \<and> forget s0 = forget s
      \<and> (\<forall>stack'. 5 \<le> stack' \<longrightarrow> query stack' ''ushers'' s0 = Some (Inr R, s0))"
    by auto
  then have "dict s0 = dict s \<and> ghosts s0 = ghosts s \<and> forget s0 = forget s
      \<and> query 5 ''ushers'' s0 = Some (Inr R, s0) \<and> query 7 ''ushers'' s0 = Some (Inr R, s0)"
    by simp
  with s(1,2) q0(1) R show ?thesis by blast
qed

text \<open>
  C10. In a reachable state every active word has its path from the root, and \<open>delete\<close>
  returns for every word: the assertion in its loop does not fail.
\<close>

theorem delete_assertion_unreachable:
  "reachable s \<Longrightarrow>
   (\<forall>w\<in>dict s. walk s ROOT w \<noteq> None) \<and> (\<exists>s'. delete w s = Some (Inr (), s'))"
proof
  assume r: "reachable s"
  then have sinv: "state_inv s" by (rule reachable_inv)
  show "\<forall>w\<in>dict s. walk s ROOT w \<noteq> None"
  proof
    fix v assume "v \<in> dict s"
    with sinv obtain k where "walk s ROOT v = Some k" by (rule delete_active)
    then show "walk s ROOT v \<noteq> None" by simp
  qed
  show "\<exists>s'. delete w s = Some (Inr (), s')"
  proof (cases "w \<in> dict s")
    case True
    with sinv obtain k nd where
      "delete w s = Some (Inr (), s\<lparr>dict := dict s - {w}, ghosts := insert w (ghosts s),
                                    nodes := (nodes s)(k \<mapsto> nd\<lparr>end_flag := False\<rparr>)\<rparr>)"
      by (rule delete_active)
    then show ?thesis by blast
  next
    case False
    then show ?thesis by (simp add: delete_inactive)
  qed
qed

theorem delete_assertion_unreachable_witness:
  "\<exists>s. perform_all [Add ''he'', Add ''she''] constructor = Some (Inr (), s)
       \<and> reachable s \<and> ''she'' \<in> dict s \<and> walk s ROOT ''she'' \<noteq> None
       \<and> (\<exists>s'. delete ''she'' s = Some (Inr (), s'))"
proof -
  from example_run obtain s where s: "perform_all [Add ''he'', Add ''she''] constructor = Some (Inr (), s)"
    "reachable s" "dict s = {''he'', ''she''}" by blast
  from s(3) have "''she'' \<in> dict s" by simp
  with s(1,2) delete_assertion_unreachable[OF s(2), of "''she''"] show ?thesis by blast
qed

end
